theory Spec2Isabelle
  imports Complex_Main "HOL-Library.AList"
begin

section \<open>Vectors (app/domain/indexes/base.py)\<close>

text \<open>
  A Python \<^verbatim>\<open>Sequence[float]\<close> is modelled as a list of reals: arithmetic is exact; the
  rounding, underflow and overflow of IEEE doubles are not part of the model.  (In the
  code the square of \<open>1e-200\<close> is \<open>0.0\<close>, so a vector that is not zero can have the norm
  \<open>0.0\<close> and be normalized to zeros; here only a zero vector has norm 0.)  The theorems
  that settle the claims do not lean on this difference: those about all inputs state
  their results through the four functions below, as the code applies them, and use no
  law of real arithmetic; those evaluated at given vectors use vectors on which the
  computation in doubles is exact.  Python's \<^verbatim>\<open>zip\<close> truncates to the shorter argument,
  as \<^const>\<open>zip\<close> does.
\<close>

type_synonym vector = "real list"

definition dot :: "vector \<Rightarrow> vector \<Rightarrow> real" where
  "dot a b = sum_list (map (\<lambda>(x, y). x * y) (zip a b))"

definition l2_norm :: "vector \<Rightarrow> real" where
  "l2_norm a = sqrt (sum_list (map (\<lambda>x. x * x) a))"

definition normalize :: "vector \<Rightarrow> vector" where
  "normalize a = (let n = l2_norm a in
     if n = 0 then map (\<lambda>_. 0) a else map (\<lambda>x. x / n) a)"

definition cosine_similarity :: "vector \<Rightarrow> vector \<Rightarrow> real" where
  "cosine_similarity a b = (let na = l2_norm a; nb = l2_norm b in
     if na = 0 \<or> nb = 0 then 0 else dot a b / (na * nb))"

section \<open>Errors\<close>

text \<open>
  Every exception the modelled code can raise is a value.  \<open>DuplicateId\<close> is the
  \<^verbatim>\<open>ValueError("Duplicate id ...")\<close> of the indexes; \<open>KeyError\<close>, \<open>IndexError\<close>,
  \<open>ZeroDivisionError\<close> and \<open>TypeError\<close> are Python's own; \<open>NotFoundError\<close>,
  \<open>ConflictError\<close> and \<open>ValidationError\<close> are the domain errors of app/core/errors.py, and
  \<open>ModelValidationError\<close> is what a pydantic model constructor raises.
\<close>

datatype error =
    DuplicateId
  | KeyError
  | IndexError
  | ZeroDivisionError
  | TypeError
  | NotFoundError
  | ConflictError
  | ValidationError
  | ModelValidationError

text \<open>Reading a list at a non-negative index: Python raises \<^verbatim>\<open>IndexError\<close> out of range.\<close>

definition py_nth :: "'a list \<Rightarrow> nat \<Rightarrow> error + 'a" where
  "py_nth xs i = (if i < length xs then Inr (xs ! i) else Inl IndexError)"

text \<open>
  A stable sort by key, as \<^verbatim>\<open>list.sort(key=...)\<close>: \<^const>\<open>sort_key\<close> inserts each
  element in front of the later elements of equal key.  With \<^verbatim>\<open>reverse=True\<close> Python
  sorts descending and still keeps equal elements in their original order, which is the
  stable ascending sort by the negated key.
\<close>

definition sort_desc :: "('a \<Rightarrow> real) \<Rightarrow> 'a list \<Rightarrow> 'a list" where
  "sort_desc f xs = sort_key (\<lambda>x. - f x) xs"

section \<open>Brute-force index (app/domain/indexes/brute_force.py)\<close>

record brute_force_index =
  bf_vectors :: "vector list"
  bf_ids :: "string list"
  bf_pos :: "string \<rightharpoonup> nat"
  bf_pre_normalize :: bool

definition bf_init :: "bool \<Rightarrow> brute_force_index" where
  "bf_init pre = \<lparr>bf_vectors = [], bf_ids = [], bf_pos = Map.empty, bf_pre_normalize = pre\<rparr>"

text \<open>\<^verbatim>\<open>{id: i for i, id in enumerate(ids)}\<close>: a later position overwrites an earlier one.\<close>

definition pos_of_ids :: "string list \<Rightarrow> (string \<rightharpoonup> nat)" where
  "pos_of_ids ids = fold (\<lambda>(i, x) m. m(x \<mapsto> i)) (enumerate 0 ids) Map.empty"

definition bf_build :: "brute_force_index \<Rightarrow> vector list \<Rightarrow> string list \<Rightarrow> brute_force_index" where
  "bf_build s vectors ids =
     s\<lparr>bf_vectors := (if bf_pre_normalize s then map normalize vectors else vectors),
       bf_ids := ids,
       bf_pos := pos_of_ids ids\<rparr>"

definition bf_add :: "brute_force_index \<Rightarrow> vector \<Rightarrow> string \<Rightarrow> error + brute_force_index" where
  "bf_add s vec i =
     (if i \<in> dom (bf_pos s) then Inl DuplicateId
      else let v = (if bf_pre_normalize s then normalize vec else vec) in
        Inr (s\<lparr>bf_pos := (bf_pos s)(i \<mapsto> length (bf_ids s)),
               bf_ids := bf_ids s @ [i],
               bf_vectors := bf_vectors s @ [v]\<rparr>))"

text \<open>
  \<^verbatim>\<open>remove\<close>: swap with the last element, then pop.  The list reads and the pops raise
  \<^verbatim>\<open>IndexError\<close> when the arrays are shorter than the position map says.
\<close>

definition bf_remove :: "brute_force_index \<Rightarrow> string \<Rightarrow> error + brute_force_index" where
  "bf_remove s i =
     (case bf_pos s i of
        None \<Rightarrow> Inl KeyError
      | Some idx \<Rightarrow>
          let ids = bf_ids s; vs = bf_vectors s in
          if ids = [] then Inl IndexError
          else let last_idx = length ids - 1 in
            if idx \<noteq> last_idx then
              (if idx < length ids \<and> last_idx < length vs \<and> idx < length vs then
                 let ids' = ids[idx := ids ! last_idx, last_idx := ids ! idx];
                     vs' = vs[idx := vs ! last_idx, last_idx := vs ! idx];
                     pos' = (bf_pos s)(ids' ! idx \<mapsto> idx)
                 in Inr (s\<lparr>bf_ids := butlast ids', bf_vectors := butlast vs',
                           bf_pos := pos'(i := None)\<rparr>)
               else Inl IndexError)
            else
              (if vs = [] then Inl IndexError
               else Inr (s\<lparr>bf_ids := butlast ids, bf_vectors := butlast vs,
                           bf_pos := (bf_pos s)(i := None)\<rparr>)))"

definition bf_update :: "brute_force_index \<Rightarrow> string \<Rightarrow> vector \<Rightarrow> error + brute_force_index" where
  "bf_update s i new_vector =
     (case bf_pos s i of
        None \<Rightarrow> Inl KeyError
      | Some idx \<Rightarrow>
          let v = (if bf_pre_normalize s then normalize new_vector else new_vector) in
          if idx < length (bf_vectors s)
          then Inr (s\<lparr>bf_vectors := (bf_vectors s)[idx := v]\<rparr>)
          else Inl IndexError)"

definition bf_search :: "brute_force_index \<Rightarrow> vector \<Rightarrow> int \<Rightarrow> (string \<times> real) list" where
  "bf_search s query k =
     (let q = (if bf_pre_normalize s then normalize query else query);
          pairs = map (\<lambda>(i, v). (i, cosine_similarity q v)) (zip (bf_ids s) (bf_vectors s))
      in take (nat (max 0 k)) (sort_desc snd pairs))"

definition bf_size :: "brute_force_index \<Rightarrow> nat" where
  "bf_size s = length (bf_ids s)"

section \<open>KD-tree index (app/domain/indexes/kd_tree.py)\<close>

datatype node = Leaf | Node (point: vector) (nid: string) (axis: nat) (left: node) (right: node)

definition distance_sq :: "vector \<Rightarrow> vector \<Rightarrow> real" where
  "distance_sq a b = sum_list (map (\<lambda>(x, y). (x - y) * (x - y)) (zip a b))"

record kd_tree_index =
  kd_root :: node
  kd_size :: nat
  kd_dim :: nat
  kd_id_to_point :: "(string \<times> vector) list"

definition kd_init :: kd_tree_index where
  "kd_init = \<lparr>kd_root = Leaf, kd_size = 0, kd_dim = 0, kd_id_to_point = []\<rparr>"

text \<open>
  \<^verbatim>\<open>items.sort(key=lambda x: x[0][axis])\<close> computes the key of every item before it
  sorts; an item shorter than \<open>axis + 1\<close> raises \<^verbatim>\<open>IndexError\<close>.
\<close>

definition sort_by_axis :: "nat \<Rightarrow> (vector \<times> string) list \<Rightarrow> error + (vector \<times> string) list" where
  "sort_by_axis ax items =
     (if list_all (\<lambda>x. ax < length (fst x)) items
      then Inr (sort_key (\<lambda>x. fst x ! ax) items)
      else Inl IndexError)"

function build_recursive :: "(vector \<times> string) list \<Rightarrow> nat \<Rightarrow> error + node" where
  "build_recursive [] depth = Inr Leaf"
| "build_recursive (first # rest) depth =
     (if length (fst first) = 0 then Inl ZeroDivisionError
      else let ax = depth mod length (fst first) in
        (case sort_by_axis ax (first # rest) of
           Inl e \<Rightarrow> Inl e
         | Inr sorted_items \<Rightarrow>
             let mid = length sorted_items div 2;
                 (p, pid) = sorted_items ! mid
             in (case build_recursive (take mid sorted_items) (depth + 1) of
                   Inl e \<Rightarrow> Inl e
                 | Inr l \<Rightarrow>
                     (case build_recursive (drop (mid + 1) sorted_items) (depth + 1) of
                        Inl e \<Rightarrow> Inl e
                      | Inr r \<Rightarrow> Inr (Node p pid ax l r)))))"
  by pat_completeness auto
termination
  by (relation "measure (\<lambda>(items, depth). length items)")
     (auto simp: sort_by_axis_def split: if_splits)

text \<open>\<^verbatim>\<open>{i: p for p, i in items}\<close>: an insertion-ordered dictionary.\<close>

definition dict_of_items :: "(vector \<times> string) list \<Rightarrow> (string \<times> vector) list" where
  "dict_of_items items = fold (\<lambda>(p, i) d. AList.update i p d) items []"

text \<open>
  \<^verbatim>\<open>build\<close>.  The outermost call of \<^verbatim>\<open>_build_recursive\<close> sorts the caller's list
  \<^verbatim>\<open>items\<close> in place (by axis 0, the recursive calls work on slices, which are copies), so
  the dictionary comprehension that follows reads the list in that sorted order.  When
  \<^verbatim>\<open>_build_recursive\<close> raises, the object keeps its old tree, size and dictionary; the
  model returns the error alone (the field \<^verbatim>\<open>_dim\<close>, already assigned then, is read
  nowhere).
\<close>

definition kd_build :: "kd_tree_index \<Rightarrow> vector list \<Rightarrow> string list \<Rightarrow> error + kd_tree_index" where
  "kd_build s vectors ids =
     (if vectors = [] then Inr (s\<lparr>kd_root := Leaf, kd_size := 0, kd_dim := 0, kd_id_to_point := []\<rparr>)
      else let points = map normalize vectors;
               items = zip points ids
           in (case build_recursive items 0 of
                 Inl e \<Rightarrow> Inl e
               | Inr rt \<Rightarrow>
                   let items' = sort_key (\<lambda>x. fst x ! 0) items in
                   Inr (s\<lparr>kd_dim := length (hd points), kd_root := rt,
                          kd_size := length items', kd_id_to_point := dict_of_items items'\<rparr>)))"

definition kd_add :: "kd_tree_index \<Rightarrow> vector \<Rightarrow> string \<Rightarrow> error + kd_tree_index" where
  "kd_add s vec i =
     (let all_ids = map fst (kd_id_to_point s) @ [i];
          all_points = map snd (kd_id_to_point s) @ [normalize vec]
      in kd_build s all_points all_ids)"

definition kd_remove :: "kd_tree_index \<Rightarrow> string \<Rightarrow> error + kd_tree_index" where
  "kd_remove s i =
     (if i \<notin> fst ` set (kd_id_to_point s) then Inl KeyError
      else let all_ids = filter (\<lambda>j. j \<noteq> i) (map fst (kd_id_to_point s));
               all_points = map (\<lambda>j. the (map_of (kd_id_to_point s) j)) all_ids
           in kd_build s all_points all_ids)"

definition kd_update :: "kd_tree_index \<Rightarrow> string \<Rightarrow> vector \<Rightarrow> error + kd_tree_index" where
  "kd_update s i new_vector =
     (if i \<notin> fst ` set (kd_id_to_point s) then Inl KeyError
      else let d = AList.update i (normalize new_vector) (kd_id_to_point s);
               all_ids = map fst d;
               all_points = map (\<lambda>j. the (map_of d j)) all_ids
           in kd_build s all_points all_ids)"

text \<open>
  \<^verbatim>\<open>_search_node\<close>: the candidate list \<^verbatim>\<open>best\<close> is threaded through the recursion.
  \<^verbatim>\<open>q[axis]\<close> and \<^verbatim>\<open>node.point[axis]\<close> raise \<^verbatim>\<open>IndexError\<close> when the vector is too
  short, and so does \<^verbatim>\<open>best[-1]\<close> on an empty list.
\<close>

function search_node :: "node \<Rightarrow> vector \<Rightarrow> int \<Rightarrow> (real \<times> string) list \<Rightarrow> error + (real \<times> string) list" where
  "search_node Leaf q k best = Inr best"
| "search_node (Node p i ax l r) q k best =
     (let dist_sq = distance_sq q p;
          best1 = sort_key fst (best @ [(dist_sq, i)]);
          best2 = (if int (length best1) > k then butlast best1 else best1)
      in (case py_nth q ax of
            Inl e \<Rightarrow> Inl e
          | Inr qa \<Rightarrow>
              (case py_nth p ax of
                 Inl e \<Rightarrow> Inl e
               | Inr pa \<Rightarrow>
                   let delta = qa - pa;
                       first = (if delta < 0 then l else r);
                       second = (if delta < 0 then r else l)
                   in (case search_node first q k best2 of
                         Inl e \<Rightarrow> Inl e
                       | Inr best3 \<Rightarrow>
                           if int (length best3) < k then search_node second q k best3
                           else if best3 = [] then Inl IndexError
                           else if delta * delta < fst (last best3) then search_node second q k best3
                           else Inr best3))))"
  by pat_completeness auto
termination
  by (relation "measure (\<lambda>(t, q, k, best). size t)") auto

definition kd_search :: "kd_tree_index \<Rightarrow> vector \<Rightarrow> int \<Rightarrow> error + (string \<times> real) list" where
  "kd_search s query k =
     (if kd_root s = Leaf \<or> k \<le> 0 then Inr []
      else let q = normalize query in
        (case search_node (kd_root s) q k [] of
           Inl e \<Rightarrow> Inl e
         | Inr best \<Rightarrow>
             Inr (map (\<lambda>(dist_sq, pid). (pid, 1 - dist_sq / 2)) (take (nat k) (sort_key fst best)))))"

definition kd_size_of :: "kd_tree_index \<Rightarrow> nat" where
  "kd_size_of s = kd_size s"

section \<open>Random-hyperplane LSH index (app/domain/indexes/lsh.py)\<close>

text \<open>
  The planes are drawn from \<^verbatim>\<open>random.Random(seed).gauss(0.0, 1.0)\<close>, a library generator
  that is not part of the repository.  It is a parameter \<open>G\<close> of the model: \<open>G seed n\<close> is
  the \<open>n\<close>-th value a generator seeded with \<open>seed\<close> returns.  The dictionary
  \<^verbatim>\<open>_id_to_vec\<close> is iterated by the fallback scan, so it is an insertion-ordered
  association list; \<^verbatim>\<open>_buckets\<close> is only looked up by key, so it is a map.
\<close>

type_synonym gauss = "int \<Rightarrow> nat \<Rightarrow> real"

record lsh_index =
  lsh_num_planes :: int
  lsh_seed :: int
  lsh_planes :: "vector list"
  lsh_buckets :: "string \<rightharpoonup> string list"
  lsh_id_to_vec :: "(string \<times> vector) list"

definition lsh_init :: "int \<Rightarrow> int \<Rightarrow> lsh_index" where
  "lsh_init num_planes seed =
     \<lparr>lsh_num_planes = num_planes, lsh_seed = seed, lsh_planes = [],
      lsh_buckets = Map.empty, lsh_id_to_vec = []\<rparr>"

definition init_planes :: "gauss \<Rightarrow> lsh_index \<Rightarrow> nat \<Rightarrow> lsh_index" where
  "init_planes G s d =
     s\<lparr>lsh_planes :=
         map (\<lambda>j. normalize (map (\<lambda>c. G (lsh_seed s) (j * d + c)) [0..<d]))
             [0..<nat (lsh_num_planes s)]\<rparr>"

definition lsh_hash :: "lsh_index \<Rightarrow> vector \<Rightarrow> string" where
  "lsh_hash s v = map (\<lambda>p. if dot v p \<ge> 0 then CHR ''1'' else CHR ''0'') (lsh_planes s)"

text \<open>\<^verbatim>\<open>self._buckets.setdefault(key, []).append(id)\<close>\<close>

definition bucket_append :: "(string \<rightharpoonup> string list) \<Rightarrow> string \<Rightarrow> string \<Rightarrow> (string \<rightharpoonup> string list)" where
  "bucket_append b key i = b(key \<mapsto> (case b key of None \<Rightarrow> [] | Some l \<Rightarrow> l) @ [i])"

definition lsh_insert :: "lsh_index \<Rightarrow> vector \<times> string \<Rightarrow> lsh_index" where
  "lsh_insert s vi =
     (let vn = normalize (fst vi);
          s1 = s\<lparr>lsh_id_to_vec := AList.update (snd vi) vn (lsh_id_to_vec s)\<rparr>
      in s1\<lparr>lsh_buckets := bucket_append (lsh_buckets s1) (lsh_hash s1 vn) (snd vi)\<rparr>)"

definition lsh_build :: "gauss \<Rightarrow> lsh_index \<Rightarrow> vector list \<Rightarrow> string list \<Rightarrow> lsh_index" where
  "lsh_build G s vectors ids =
     (let s0 = s\<lparr>lsh_buckets := Map.empty, lsh_id_to_vec := []\<rparr> in
      if vectors = [] then s0\<lparr>lsh_planes := []\<rparr>
      else foldl lsh_insert (init_planes G s0 (length (hd vectors))) (zip vectors ids))"

definition lsh_add :: "gauss \<Rightarrow> lsh_index \<Rightarrow> vector \<Rightarrow> string \<Rightarrow> error + lsh_index" where
  "lsh_add G s vec i =
     (if i \<in> fst ` set (lsh_id_to_vec s) then Inl DuplicateId
      else let vn = normalize vec;
               s1 = s\<lparr>lsh_id_to_vec := AList.update i vn (lsh_id_to_vec s)\<rparr>;
               s2 = (if lsh_planes s1 = [] then init_planes G s1 (length vn) else s1)
           in Inr (s2\<lparr>lsh_buckets := bucket_append (lsh_buckets s2) (lsh_hash s2 vn) i\<rparr>))"

definition lsh_remove :: "lsh_index \<Rightarrow> string \<Rightarrow> error + lsh_index" where
  "lsh_remove s i =
     (case map_of (lsh_id_to_vec s) i of
        None \<Rightarrow> Inl KeyError
      | Some vn \<Rightarrow>
          let s1 = s\<lparr>lsh_id_to_vec := AList.delete i (lsh_id_to_vec s)\<rparr>;
              key = lsh_hash s1 vn;
              bucket = (case lsh_buckets s1 key of None \<Rightarrow> [] | Some l \<Rightarrow> l)
          in if i \<in> set bucket then
               (let bucket' = remove1 i bucket in
                if bucket' = [] then Inr (s1\<lparr>lsh_buckets := (lsh_buckets s1)(key := None)\<rparr>)
                else Inr (s1\<lparr>lsh_buckets := (lsh_buckets s1)(key \<mapsto> bucket')\<rparr>))
             else Inr s1)"

definition lsh_update :: "gauss \<Rightarrow> lsh_index \<Rightarrow> string \<Rightarrow> vector \<Rightarrow> error + lsh_index" where
  "lsh_update G s i new_vector =
     (case lsh_remove s i of
        Inl e \<Rightarrow> Inl e
      | Inr s1 \<Rightarrow> lsh_add G s1 new_vector i)"

fun score_candidates :: "(string \<times> vector) list \<Rightarrow> vector \<Rightarrow> string list \<Rightarrow> error + (string \<times> real) list" where
  "score_candidates d q [] = Inr []"
| "score_candidates d q (cid # cs) =
     (case map_of d cid of
        None \<Rightarrow> Inl KeyError
      | Some v \<Rightarrow>
          (case score_candidates d q cs of
             Inl e \<Rightarrow> Inl e
           | Inr pairs \<Rightarrow> Inr ((cid, cosine_similarity q v) # pairs)))"

definition lsh_search :: "lsh_index \<Rightarrow> vector \<Rightarrow> int \<Rightarrow> error + (string \<times> real) list" where
  "lsh_search s query k =
     (if k \<le> 0 then Inr []
      else if lsh_id_to_vec s = [] then Inr []
      else let q = normalize query;
               candidates = (if lsh_planes s \<noteq> []
                             then (case lsh_buckets s (lsh_hash s q) of None \<Rightarrow> [] | Some l \<Rightarrow> l)
                             else []);
               candidates' = (if candidates = [] then map fst (lsh_id_to_vec s) else candidates)
           in (case score_candidates (lsh_id_to_vec s) q candidates' of
                 Inl e \<Rightarrow> Inl e
               | Inr pairs \<Rightarrow> Inr (take (nat k) (sort_desc snd pairs))))"

definition lsh_size :: "lsh_index \<Rightarrow> nat" where
  "lsh_size s = length (lsh_id_to_vec s)"

section \<open>The index interface (\<^verbatim>\<open>VectorIndex\<close>) and its three implementations\<close>

datatype vector_index =
    BruteForceIndex brute_force_index
  | KDTreeIndex kd_tree_index
  | RandomHyperplaneLSHIndex lsh_index

fun vi_build :: "gauss \<Rightarrow> vector_index \<Rightarrow> vector list \<Rightarrow> string list \<Rightarrow> error + vector_index" where
  "vi_build G (BruteForceIndex b) vectors ids = Inr (BruteForceIndex (bf_build b vectors ids))"
| "vi_build G (KDTreeIndex t) vectors ids = map_sum id KDTreeIndex (kd_build t vectors ids)"
| "vi_build G (RandomHyperplaneLSHIndex h) vectors ids =
     Inr (RandomHyperplaneLSHIndex (lsh_build G h vectors ids))"

fun vi_add :: "gauss \<Rightarrow> vector_index \<Rightarrow> vector \<Rightarrow> string \<Rightarrow> error + vector_index" where
  "vi_add G (BruteForceIndex b) v i = map_sum id BruteForceIndex (bf_add b v i)"
| "vi_add G (KDTreeIndex t) v i = map_sum id KDTreeIndex (kd_add t v i)"
| "vi_add G (RandomHyperplaneLSHIndex h) v i = map_sum id RandomHyperplaneLSHIndex (lsh_add G h v i)"

fun vi_remove :: "vector_index \<Rightarrow> string \<Rightarrow> error + vector_index" where
  "vi_remove (BruteForceIndex b) i = map_sum id BruteForceIndex (bf_remove b i)"
| "vi_remove (KDTreeIndex t) i = map_sum id KDTreeIndex (kd_remove t i)"
| "vi_remove (RandomHyperplaneLSHIndex h) i = map_sum id RandomHyperplaneLSHIndex (lsh_remove h i)"

fun vi_update :: "gauss \<Rightarrow> vector_index \<Rightarrow> string \<Rightarrow> vector \<Rightarrow> error + vector_index" where
  "vi_update G (BruteForceIndex b) i v = map_sum id BruteForceIndex (bf_update b i v)"
| "vi_update G (KDTreeIndex t) i v = map_sum id KDTreeIndex (kd_update t i v)"
| "vi_update G (RandomHyperplaneLSHIndex h) i v =
     map_sum id RandomHyperplaneLSHIndex (lsh_update G h i v)"

fun vi_search :: "vector_index \<Rightarrow> vector \<Rightarrow> int \<Rightarrow> error + (string \<times> real) list" where
  "vi_search (BruteForceIndex b) q k = Inr (bf_search b q k)"
| "vi_search (KDTreeIndex t) q k = kd_search t q k"
| "vi_search (RandomHyperplaneLSHIndex h) q k = lsh_search h q k"

fun vi_size :: "vector_index \<Rightarrow> nat" where
  "vi_size (BruteForceIndex b) = bf_size b"
| "vi_size (KDTreeIndex t) = kd_size_of t"
| "vi_size (RandomHyperplaneLSHIndex h) = lsh_size h"

section \<open>Domain models (app/domain/models)\<close>

text \<open>
  The entities keep the fields the services and the query filter read.  The field
  \<^verbatim>\<open>updated_at\<close> (set by \<^verbatim>\<open>touch()\<close> from the wall clock) is read by none of the modelled
  functions and is left out.  A \<^verbatim>\<open>datetime\<close> is either naive or timezone-aware; it is
  modelled by its microsecond count (for an aware value, of the UTC instant).  Python
  refuses to order a naive against an aware value with \<^verbatim>\<open>TypeError\<close>.
\<close>

datatype index_type = BRUTE_FORCE | KD_TREE | LSH

datatype datetime = Naive int | Aware int

fun dt_less :: "datetime \<Rightarrow> datetime \<Rightarrow> error + bool" where
  "dt_less (Naive a) (Naive b) = Inr (a < b)"
| "dt_less (Aware a) (Aware b) = Inr (a < b)"
| "dt_less (Naive a) (Aware b) = Inl TypeError"
| "dt_less (Aware a) (Naive b) = Inl TypeError"

record library =
  lib_id :: string
  lib_name :: string
  lib_embedding_dimension :: int
  lib_default_index_type :: index_type

record document =
  doc_id :: string
  doc_library_id :: string
  doc_title :: string

record chunk_metadata =
  meta_source :: "string option"
  meta_tags :: "string list"
  meta_author :: "string option"
  meta_created_by :: "string option"

record chunk =
  chunk_id :: string
  chunk_created_at :: datetime
  chunk_library_id :: string
  chunk_document_id :: string
  chunk_text :: string
  chunk_embedding :: vector
  chunk_metadata :: chunk_metadata

text \<open>
  A string is a list of code points below 256, the characters of \<^typ>\<open>char\<close>.  Python's
  \<^verbatim>\<open>str.strip()\<close> removes the characters for which \<^verbatim>\<open>str.isspace()\<close> holds; below 256
  these are the codes 9 to 13, 28 to 32, 133 (U+0085) and 160 (U+00A0).  \<^verbatim>\<open>str.lower()\<close>
  maps the upper-case letters to the code 32 above them; below 256 these are \<open>A\<close> to \<open>Z\<close>
  (65 to 90) and the letters 192 to 222 (U+00C0 to U+00DE) without the multiplication sign
  215 (U+00D7), and every other character is left as it is.
\<close>

definition is_space :: "char \<Rightarrow> bool" where
  "is_space c = (let n = (of_char c :: nat)
                 in (9 \<le> n \<and> n \<le> 13) \<or> (28 \<le> n \<and> n \<le> 32) \<or> n = 133 \<or> n = 160)"

definition strip :: "string \<Rightarrow> string" where
  "strip s = rev (dropWhile is_space (rev (dropWhile is_space s)))"

definition lower_char :: "char \<Rightarrow> char" where
  "lower_char c = (let n = (of_char c :: nat)
                   in if (65 \<le> n \<and> n \<le> 90) \<or> (192 \<le> n \<and> n \<le> 222 \<and> n \<noteq> 215)
                      then char_of (n + 32) else c)"

definition lower :: "string \<Rightarrow> string" where
  "lower s = map lower_char s"

text \<open>
  The constructor \<^verbatim>\<open>Chunk(library_id=..., document_id=..., text=..., embedding=...)\<close>
  with its pydantic checks: both ids and the embedding are non-empty, the text is stored
  stripped and must be non-empty then.  The fresh id (\<^verbatim>\<open>uuid4\<close>) and the creation time
  (\<^verbatim>\<open>utcnow\<close>, a naive value) come from outside and are parameters.
\<close>

definition new_chunk :: "string \<Rightarrow> int \<Rightarrow> string \<Rightarrow> string \<Rightarrow> string \<Rightarrow> vector \<Rightarrow> error + chunk" where
  "new_chunk fresh_id now library_id document_id text embedding =
     (if library_id = [] \<or> document_id = [] \<or> text = [] \<or> embedding = [] \<or> strip text = []
      then Inl ModelValidationError
      else Inr \<lparr>chunk_id = fresh_id, chunk_created_at = Naive now,
                chunk_library_id = library_id, chunk_document_id = document_id,
                chunk_text = strip text, chunk_embedding = embedding,
                chunk_metadata = \<lparr>meta_source = None, meta_tags = [], meta_author = None,
                                   meta_created_by = None\<rparr>\<rparr>)"

section \<open>Repositories (app/domain/repositories)\<close>

text \<open>
  The primary dictionaries are maps.  A secondary index is a \<^verbatim>\<open>defaultdict(set)\<close>: a
  function from the parent id to the ids it holds.  The listing functions iterate such a
  set, so it is modelled by a list without repetition; where a new element lands in
  Python's iteration order is not specified, the model appends it, and no theorem below
  depends on the order.  Every repository call runs under the repository's own mutex,
  so it is one atomic step.
\<close>

definition set_add :: "'a \<Rightarrow> 'a list \<Rightarrow> 'a list" where
  "set_add x xs = (if x \<in> set xs then xs else xs @ [x])"

definition set_discard :: "'a \<Rightarrow> 'a list \<Rightarrow> 'a list" where
  "set_discard x xs = removeAll x xs"

type_synonym library_repo = "string \<rightharpoonup> library"

record document_repo =
  doc_items :: "string \<rightharpoonup> document"
  doc_by_library :: "string \<Rightarrow> string list"

record chunk_repo =
  ch_items :: "string \<rightharpoonup> chunk"
  ch_by_library :: "string \<Rightarrow> string list"
  ch_by_document :: "string \<Rightarrow> string list"

definition libraries_get :: "library_repo \<Rightarrow> string \<Rightarrow> error + library" where
  "libraries_get r library_id =
     (case r library_id of None \<Rightarrow> Inl NotFoundError | Some lib \<Rightarrow> Inr lib)"

definition libraries_delete :: "library_repo \<Rightarrow> string \<Rightarrow> error + library_repo" where
  "libraries_delete r library_id =
     (if library_id \<notin> dom r then Inl NotFoundError else Inr (r(library_id := None)))"

definition documents_get :: "document_repo \<Rightarrow> string \<Rightarrow> error + document" where
  "documents_get r document_id =
     (case doc_items r document_id of None \<Rightarrow> Inl NotFoundError | Some d \<Rightarrow> Inr d)"

text \<open>\<^verbatim>\<open>[self._items[i] for i in ids]\<close>: a missing key raises \<^verbatim>\<open>KeyError\<close>.\<close>

fun lookup_all :: "(string \<rightharpoonup> 'a) \<Rightarrow> string list \<Rightarrow> error + 'a list" where
  "lookup_all m [] = Inr []"
| "lookup_all m (i # ids) =
     (case m i of
        None \<Rightarrow> Inl KeyError
      | Some x \<Rightarrow> (case lookup_all m ids of Inl e \<Rightarrow> Inl e | Inr xs \<Rightarrow> Inr (x # xs)))"

definition documents_list_by_library :: "document_repo \<Rightarrow> string \<Rightarrow> error + document list" where
  "documents_list_by_library r library_id = lookup_all (doc_items r) (doc_by_library r library_id)"

definition documents_delete :: "document_repo \<Rightarrow> string \<Rightarrow> error + document_repo" where
  "documents_delete r document_id =
     (case doc_items r document_id of
        None \<Rightarrow> Inl NotFoundError
      | Some d \<Rightarrow>
          Inr (r\<lparr>doc_items := (doc_items r)(document_id := None),
                 doc_by_library := (doc_by_library r)
                   (doc_library_id d := set_discard document_id (doc_by_library r (doc_library_id d)))\<rparr>))"

definition chunks_create :: "chunk_repo \<Rightarrow> chunk \<Rightarrow> error + chunk_repo" where
  "chunks_create r c =
     (if chunk_id c \<in> dom (ch_items r) then Inl ConflictError
      else Inr (r\<lparr>ch_items := (ch_items r)(chunk_id c \<mapsto> c),
                  ch_by_library := (ch_by_library r)
                    (chunk_library_id c := set_add (chunk_id c) (ch_by_library r (chunk_library_id c))),
                  ch_by_document := (ch_by_document r)
                    (chunk_document_id c := set_add (chunk_id c) (ch_by_document r (chunk_document_id c)))\<rparr>))"

definition chunks_get :: "chunk_repo \<Rightarrow> string \<Rightarrow> error + chunk" where
  "chunks_get r cid =
     (case ch_items r cid of None \<Rightarrow> Inl NotFoundError | Some c \<Rightarrow> Inr c)"

definition chunks_list_by_library :: "chunk_repo \<Rightarrow> string \<Rightarrow> error + chunk list" where
  "chunks_list_by_library r library_id = lookup_all (ch_items r) (ch_by_library r library_id)"

definition chunks_list_by_document :: "chunk_repo \<Rightarrow> string \<Rightarrow> error + chunk list" where
  "chunks_list_by_document r document_id = lookup_all (ch_items r) (ch_by_document r document_id)"

text \<open>
  \<^verbatim>\<open>update(chunk_id, **fields)\<close> as the chunk service calls it: the fields are
  \<^verbatim>\<open>text\<close> and \<^verbatim>\<open>embedding\<close>, each assigned when given (no validation runs on
  assignment).
\<close>

definition chunks_update :: "chunk_repo \<Rightarrow> string \<Rightarrow> string option \<Rightarrow> vector option \<Rightarrow> error + (chunk \<times> chunk_repo)" where
  "chunks_update r cid text embedding =
     (case ch_items r cid of
        None \<Rightarrow> Inl NotFoundError
      | Some c \<Rightarrow>
          let c1 = (case text of None \<Rightarrow> c | Some t \<Rightarrow> c\<lparr>chunk_text := t\<rparr>);
              c2 = (case embedding of None \<Rightarrow> c1 | Some e \<Rightarrow> c1\<lparr>chunk_embedding := e\<rparr>)
          in Inr (c2, r\<lparr>ch_items := (ch_items r)(cid \<mapsto> c2)\<rparr>))"

definition chunks_delete :: "chunk_repo \<Rightarrow> string \<Rightarrow> error + chunk_repo" where
  "chunks_delete r cid =
     (case ch_items r cid of
        None \<Rightarrow> Inl NotFoundError
      | Some c \<Rightarrow>
          Inr (r\<lparr>ch_items := (ch_items r)(cid := None),
                 ch_by_library := (ch_by_library r)
                   (chunk_library_id c := set_discard cid (ch_by_library r (chunk_library_id c))),
                 ch_by_document := (ch_by_document r)
                   (chunk_document_id c := set_discard cid (ch_by_document r (chunk_document_id c)))\<rparr>))"

section \<open>Version manager (app/domain/concurrency/versioning.py)\<close>

record version_info =
  data_version :: int
  index_version :: int

type_synonym version_manager = "string \<rightharpoonup> version_info"

text \<open>\<^verbatim>\<open>self._versions.setdefault(library_id, VersionInfo())\<close>: the entry is created on first access.\<close>

definition vm_setdefault :: "version_manager \<Rightarrow> string \<Rightarrow> version_info \<times> version_manager" where
  "vm_setdefault vm library_id =
     (case vm library_id of
        None \<Rightarrow> (let vi = \<lparr>data_version = 0, index_version = - 1\<rparr> in (vi, vm(library_id \<mapsto> vi)))
      | Some vi \<Rightarrow> (vi, vm))"

definition vm_get :: "version_manager \<Rightarrow> string \<Rightarrow> version_info \<times> version_manager" where
  "vm_get vm library_id = vm_setdefault vm library_id"

definition bump_data :: "version_manager \<Rightarrow> string \<Rightarrow> version_info \<times> version_manager" where
  "bump_data vm library_id =
     (let (vi, vm1) = vm_setdefault vm library_id;
          vi' = vi\<lparr>data_version := data_version vi + 1\<rparr>
      in (vi', vm1(library_id \<mapsto> vi')))"

definition set_index_version :: "version_manager \<Rightarrow> string \<Rightarrow> int \<Rightarrow> version_info \<times> version_manager" where
  "set_index_version vm library_id version =
     (let (vi, vm1) = vm_setdefault vm library_id;
          vi' = vi\<lparr>index_version := version\<rparr>
      in (vi', vm1(library_id \<mapsto> vi')))"

definition is_index_stale :: "version_manager \<Rightarrow> string \<Rightarrow> bool \<times> version_manager" where
  "is_index_stale vm library_id =
     (let (vi, vm1) = vm_setdefault vm library_id
      in (index_version vi \<noteq> data_version vi, vm1))"

section \<open>The system state\<close>

text \<open>
  One record holds what the process-wide singletons of app/api/deps.py hold: the three
  repositories, the version manager and the three dictionaries of the index service.
  The services are modelled sequentially: each call runs alone, so the per-library
  reader-writer lock it takes is always free and is not part of this state (the lock
  itself is modelled further below).  A service call returns its result, an error or a
  value, together with the state it leaves behind, so the effects that precede a raised
  exception are kept.
\<close>

record system =
  sys_libraries :: library_repo
  sys_documents :: document_repo
  sys_chunks :: chunk_repo
  sys_versions :: version_manager
  sys_indexes :: "string \<rightharpoonup> vector_index"
  sys_index_types :: "string \<rightharpoonup> index_type"
  sys_building :: "string \<rightharpoonup> bool"

section \<open>Index service (app/domain/services/index_service.py)\<close>

text \<open>
  \<^verbatim>\<open>_create_index\<close>: the final \<^verbatim>\<open>raise NotImplementedError\<close> is reached by no value of
  the enumeration \<^verbatim>\<open>IndexType\<close>.
\<close>

fun create_index :: "index_type \<Rightarrow> vector_index" where
  "create_index BRUTE_FORCE = BruteForceIndex (bf_init True)"
| "create_index KD_TREE = KDTreeIndex kd_init"
| "create_index LSH = RandomHyperplaneLSHIndex (lsh_init 24 42)"

text \<open>The tail shared by the maintenance calls: \<open>index_version := data_version\<close>.\<close>

definition sync_index_version :: "system \<Rightarrow> string \<Rightarrow> system" where
  "sync_index_version s library_id =
     (let (vi, vm1) = vm_get (sys_versions s) library_id;
          (vi', vm2) = set_index_version vm1 library_id (data_version vi)
      in s\<lparr>sys_versions := vm2\<rparr>)"

definition build_index :: "gauss \<Rightarrow> system \<Rightarrow> string \<Rightarrow> index_type \<Rightarrow> chunk list \<Rightarrow> (error + unit) \<times> system" where
  "build_index G s library_id itype chunks =
     (let vectors = map chunk_embedding chunks;
          ids = map chunk_id chunks
      in (case vi_build G (create_index itype) vectors ids of
            Inl e \<Rightarrow> (Inl e, s)
          | Inr index \<Rightarrow>
              let s1 = s\<lparr>sys_indexes := (sys_indexes s)(library_id \<mapsto> index),
                         sys_index_types := (sys_index_types s)(library_id \<mapsto> itype)\<rparr>;
                  s2 = sync_index_version s1 library_id
              in (Inr (), s2\<lparr>sys_building := (sys_building s2)(library_id \<mapsto> False)\<rparr>)))"

text \<open>
  \<^verbatim>\<open>build_index_async\<close> returns at once; the build it starts on a worker thread is
  returned as a job (the arguments of the \<^verbatim>\<open>build_index\<close> call the thread makes).  An
  exception of that call ends the worker thread and reaches nobody.
\<close>

type_synonym job = "string \<times> index_type \<times> chunk list"

definition build_index_async :: "system \<Rightarrow> string \<Rightarrow> index_type \<Rightarrow> chunk list \<Rightarrow> system \<times> job option" where
  "build_index_async s library_id itype chunks =
     (if sys_building s library_id = Some True then (s, None)
      else (s\<lparr>sys_building := (sys_building s)(library_id \<mapsto> True)\<rparr>,
            Some (library_id, itype, chunks)))"

definition run_job :: "gauss \<Rightarrow> system \<Rightarrow> job \<Rightarrow> (error + unit) \<times> system" where
  "run_job G s j = (case j of (library_id, itype, chunks) \<Rightarrow> build_index G s library_id itype chunks)"

definition rebuild_async_using_existing_type :: "system \<Rightarrow> string \<Rightarrow> chunk list \<Rightarrow> system \<times> job option" where
  "rebuild_async_using_existing_type s library_id chunks =
     (let itype = (case sys_index_types s library_id of None \<Rightarrow> BRUTE_FORCE | Some t \<Rightarrow> t)
      in build_index_async s library_id itype chunks)"

definition is_building :: "system \<Rightarrow> string \<Rightarrow> bool" where
  "is_building s library_id = (case sys_building s library_id of None \<Rightarrow> False | Some b \<Rightarrow> b)"

definition add_chunk :: "gauss \<Rightarrow> system \<Rightarrow> string \<Rightarrow> chunk \<Rightarrow> (error + unit) \<times> system" where
  "add_chunk G s library_id c =
     (case sys_indexes s library_id of
        None \<Rightarrow> (Inr (), s)
      | Some idx \<Rightarrow>
          (case vi_add G idx (chunk_embedding c) (chunk_id c) of
             Inl e \<Rightarrow> (Inl e, s)
           | Inr idx' \<Rightarrow>
               (Inr (), sync_index_version (s\<lparr>sys_indexes := (sys_indexes s)(library_id \<mapsto> idx')\<rparr>) library_id)))"

definition remove_chunk :: "system \<Rightarrow> string \<Rightarrow> string \<Rightarrow> (error + unit) \<times> system" where
  "remove_chunk s library_id cid =
     (case sys_indexes s library_id of
        None \<Rightarrow> (Inr (), s)
      | Some idx \<Rightarrow>
          (case vi_remove idx cid of
             Inl e \<Rightarrow> (Inl e, s)
           | Inr idx' \<Rightarrow>
               (Inr (), sync_index_version (s\<lparr>sys_indexes := (sys_indexes s)(library_id \<mapsto> idx')\<rparr>) library_id)))"

definition update_chunk :: "gauss \<Rightarrow> system \<Rightarrow> string \<Rightarrow> chunk \<Rightarrow> (error + unit) \<times> system" where
  "update_chunk G s library_id c =
     (case sys_indexes s library_id of
        None \<Rightarrow> (Inr (), s)
      | Some idx \<Rightarrow>
          (case vi_update G idx (chunk_id c) (chunk_embedding c) of
             Inl e \<Rightarrow> (Inl e, s)
           | Inr idx' \<Rightarrow>
               (Inr (), sync_index_version (s\<lparr>sys_indexes := (sys_indexes s)(library_id \<mapsto> idx')\<rparr>) library_id)))"

definition index_search :: "system \<Rightarrow> string \<Rightarrow> vector \<Rightarrow> int \<Rightarrow> error + (string \<times> real) list" where
  "index_search s library_id query k =
     (case sys_indexes s library_id of
        None \<Rightarrow> Inr []
      | Some idx \<Rightarrow> vi_search idx query k)"

section \<open>Chunk service (app/domain/services/chunk_service.py)\<close>

definition validate_embedding :: "system \<Rightarrow> string \<Rightarrow> vector \<Rightarrow> error + unit" where
  "validate_embedding s library_id embedding =
     (case libraries_get (sys_libraries s) library_id of
        Inl e \<Rightarrow> Inl e
      | Inr lib \<Rightarrow>
          if int (length embedding) \<noteq> lib_embedding_dimension lib then Inl ValidationError
          else Inr ())"

definition chunk_create ::
  "gauss \<Rightarrow> system \<Rightarrow> string \<Rightarrow> string \<Rightarrow> string \<Rightarrow> vector \<Rightarrow> string \<Rightarrow> int \<Rightarrow> (error + chunk) \<times> system" where
  "chunk_create G s library_id document_id text embedding fresh_id now =
     (case libraries_get (sys_libraries s) library_id of
        Inl e \<Rightarrow> (Inl e, s)
      | Inr _ \<Rightarrow>
     (case documents_get (sys_documents s) document_id of
        Inl e \<Rightarrow> (Inl e, s)
      | Inr _ \<Rightarrow>
     (case validate_embedding s library_id embedding of
        Inl e \<Rightarrow> (Inl e, s)
      | Inr _ \<Rightarrow>
     (case new_chunk fresh_id now library_id document_id text embedding of
        Inl e \<Rightarrow> (Inl e, s)
      | Inr c \<Rightarrow>
     (case chunks_create (sys_chunks s) c of
        Inl e \<Rightarrow> (Inl e, s)
      | Inr r \<Rightarrow>
          let s1 = s\<lparr>sys_chunks := r\<rparr>;
              (vi, vm) = bump_data (sys_versions s1) library_id;
              s2 = s1\<lparr>sys_versions := vm\<rparr>
          in (case add_chunk G s2 library_id c of
                (Inl e, s3) \<Rightarrow> (Inl e, s3)
              | (Inr _, s3) \<Rightarrow> (Inr c, s3)))))))"

definition chunk_update ::
  "gauss \<Rightarrow> system \<Rightarrow> string \<Rightarrow> string option \<Rightarrow> vector option \<Rightarrow> (error + chunk) \<times> system" where
  "chunk_update G s cid text embedding =
     (case chunks_get (sys_chunks s) cid of
        Inl e \<Rightarrow> (Inl e, s)
      | Inr ch \<Rightarrow>
     (case (case embedding of
              None \<Rightarrow> Inr ()
            | Some e \<Rightarrow> validate_embedding s (chunk_library_id ch) e) of
        Inl e \<Rightarrow> (Inl e, s)
      | Inr _ \<Rightarrow>
     (case chunks_update (sys_chunks s) cid text embedding of
        Inl e \<Rightarrow> (Inl e, s)
      | Inr (res, r) \<Rightarrow>
          let s1 = s\<lparr>sys_chunks := r\<rparr>;
              (vi, vm) = bump_data (sys_versions s1) (chunk_library_id ch);
              s2 = s1\<lparr>sys_versions := vm\<rparr>
          in (case embedding of
                None \<Rightarrow> (Inr res, s2)
              | Some e \<Rightarrow>
                  (case update_chunk G s2 (chunk_library_id ch) res of
                     (Inl e, s3) \<Rightarrow> (Inl e, s3)
                   | (Inr _, s3) \<Rightarrow> (Inr res, s3))))))"

definition chunk_delete :: "system \<Rightarrow> string \<Rightarrow> (error + unit) \<times> system" where
  "chunk_delete s cid =
     (case chunks_get (sys_chunks s) cid of
        Inl e \<Rightarrow> (Inl e, s)
      | Inr ch \<Rightarrow>
     (case chunks_delete (sys_chunks s) cid of
        Inl e \<Rightarrow> (Inl e, s)
      | Inr r \<Rightarrow>
          let s1 = s\<lparr>sys_chunks := r\<rparr>;
              (vi, vm) = bump_data (sys_versions s1) (chunk_library_id ch);
              s2 = s1\<lparr>sys_versions := vm\<rparr>
          in remove_chunk s2 (chunk_library_id ch) cid))"

section \<open>Sequences of chunk operations\<close>

text \<open>
  A request to the chunk service: \<open>Create\<close> carries the fresh id and the creation time the
  constructor draws.  \<open>apply_op\<close> runs one request and returns the error it raised, if
  any, with the state it leaves; \<open>run_ops\<close> lists the states a sequence of requests goes
  through.
\<close>

datatype chunk_op =
    Create string string string vector string int
  | Update string "string option" "vector option"
  | Delete string

fun apply_op :: "gauss \<Rightarrow> system \<Rightarrow> chunk_op \<Rightarrow> error option \<times> system" where
  "apply_op G s (Create library_id document_id text embedding fresh_id now) =
     (case chunk_create G s library_id document_id text embedding fresh_id now of
        (Inl e, s') \<Rightarrow> (Some e, s') | (Inr _, s') \<Rightarrow> (None, s'))"
| "apply_op G s (Update cid text embedding) =
     (case chunk_update G s cid text embedding of
        (Inl e, s') \<Rightarrow> (Some e, s') | (Inr _, s') \<Rightarrow> (None, s'))"
| "apply_op G s (Delete cid) =
     (case chunk_delete s cid of
        (Inl e, s') \<Rightarrow> (Some e, s') | (Inr _, s') \<Rightarrow> (None, s'))"

fun run_ops :: "gauss \<Rightarrow> system \<Rightarrow> chunk_op list \<Rightarrow> system list" where
  "run_ops G s [] = [s]"
| "run_ops G s (op # ops) = s # run_ops G (snd (apply_op G s op)) ops"

text \<open>
  The library whose live index a request patches through \<^verbatim>\<open>add_chunk\<close>,
  \<^verbatim>\<open>update_chunk\<close> or \<^verbatim>\<open>remove_chunk\<close>, if any: an update without a new embedding makes
  no maintenance call, and neither does a request on a library without an index.
\<close>

definition live_library_of :: "system \<Rightarrow> string \<Rightarrow> string option" where
  "live_library_of s cid =
     (case ch_items (sys_chunks s) cid of
        None \<Rightarrow> None
      | Some ch \<Rightarrow> if sys_indexes s (chunk_library_id ch) = None then None
                   else Some (chunk_library_id ch))"

fun maintained :: "system \<Rightarrow> chunk_op \<Rightarrow> string option" where
  "maintained s (Create library_id document_id text embedding fresh_id now) =
     (if sys_indexes s library_id = None then None else Some library_id)"
| "maintained s (Update cid text None) = None"
| "maintained s (Update cid text (Some e)) = live_library_of s cid"
| "maintained s (Delete cid) = live_library_of s cid"

text \<open>What \<^verbatim>\<open>VersionManager.get\<close> returns for a library.\<close>

definition version_of :: "system \<Rightarrow> string \<Rightarrow> version_info" where
  "version_of s library_id = fst (vm_get (sys_versions s) library_id)"

text \<open>
  The invariant of the version protocol: the index version is only ever set to the
  current data version, and the data version only grows.
\<close>

definition versions_ok :: "system \<Rightarrow> bool" where
  "versions_ok s = (\<forall>l. index_version (version_of s l) \<le> data_version (version_of s l))"

text \<open>Auxiliary notions for the proofs about versions.\<close>

definition vinfo :: "version_manager \<Rightarrow> string \<Rightarrow> version_info" where
  "vinfo vm l = fst (vm_setdefault vm l)"

definition bumped :: "version_info \<Rightarrow> version_info" where
  "bumped v = v\<lparr>data_version := data_version v + 1\<rparr>"

definition synced :: "version_info \<Rightarrow> version_info" where
  "synced v = v\<lparr>index_version := data_version v\<rparr>"

definition versions_effect :: "system \<Rightarrow> system \<Rightarrow> string \<Rightarrow> bool \<Rightarrow> bool" where
  "versions_effect s s' l sync = (\<forall>l'. vinfo (sys_versions s') l' =
      (if l' = l then (if sync then synced (bumped (vinfo (sys_versions s) l)) else bumped (vinfo (sys_versions s) l))
       else vinfo (sys_versions s) l'))"

definition step_ok :: "system \<Rightarrow> chunk_op \<Rightarrow> error option \<Rightarrow> system \<Rightarrow> bool" where
  "step_ok s op r s' =
    ((\<forall>l. index_version (version_of s l) \<le> index_version (version_of s' l)) \<and>
     (\<forall>l. r = None \<and> maintained s op = Some l \<longrightarrow>
        index_version (version_of s' l) = data_version (version_of s' l) \<and>
        \<not> fst (is_index_stale (sys_versions s') l)))"

section \<open>Example states\<close>

text \<open>
  The state of a fresh process, and a state with one library of dimension 4, one document
  and an empty brute-force index for the library.
\<close>

definition empty_system :: system where
  "empty_system = \<lparr>sys_libraries = Map.empty,
       sys_documents = \<lparr>doc_items = Map.empty, doc_by_library = (\<lambda>_. [])\<rparr>,
       sys_chunks = \<lparr>ch_items = Map.empty, ch_by_library = (\<lambda>_. []), ch_by_document = (\<lambda>_. [])\<rparr>,
       sys_versions = Map.empty, sys_indexes = Map.empty, sys_index_types = Map.empty,
       sys_building = Map.empty\<rparr>"

definition example_system :: system where
  "example_system = empty_system\<lparr>
       sys_libraries := [''L'' \<mapsto> \<lparr>lib_id = ''L'', lib_name = ''lib'', lib_embedding_dimension = 4,
                                   lib_default_index_type = BRUTE_FORCE\<rparr>],
       sys_documents := \<lparr>doc_items = [''D'' \<mapsto> \<lparr>doc_id = ''D'', doc_library_id = ''L'', doc_title = ''doc''\<rparr>],
                         doc_by_library = (\<lambda>_. [])(''L'' := [''D''])\<rparr>,
       sys_indexes := [''L'' \<mapsto> BruteForceIndex (bf_init True)]\<rparr>"

text \<open>Four chunks whose embeddings do not all have the same length.\<close>

definition mk_chunk :: "string \<Rightarrow> vector \<Rightarrow> chunk" where
  "mk_chunk i e = \<lparr>chunk_id = i, chunk_created_at = Naive 0, chunk_library_id = ''L'',
       chunk_document_id = ''D'', chunk_text = ''t'', chunk_embedding = e,
       chunk_metadata = \<lparr>meta_source = None, meta_tags = [], meta_author = None, meta_created_by = None\<rparr>\<rparr>"

definition ragged_chunks :: "chunk list" where
  "ragged_chunks = [mk_chunk ''c1'' [- 1, 0], mk_chunk ''c2'' [0], mk_chunk ''c3'' [1, 0], mk_chunk ''c4'' [1, 0]]"

section \<open>Sequences of operations on the brute-force index\<close>

text \<open>
  A call of one of the four mutating methods of an index.  \<open>bf_step\<close> runs it on the
  brute-force index; \<open>bf_exec\<close> runs a
  sequence of calls on one index object, where a call that raises leaves the object to the
  next call as it was (\<^verbatim>\<open>add\<close> and \<^verbatim>\<open>update\<close> raise before they assign anything, and
  so does \<^verbatim>\<open>remove\<close> on an unknown id).
\<close>

datatype index_op =
    Build "vector list" "string list"
  | Add vector string
  | Remove string
  | UpdateVec string vector

fun bf_step :: "brute_force_index \<Rightarrow> index_op \<Rightarrow> error + brute_force_index" where
  "bf_step s (Build vectors ids) = Inr (bf_build s vectors ids)"
| "bf_step s (Add v i) = bf_add s v i"
| "bf_step s (Remove i) = bf_remove s i"
| "bf_step s (UpdateVec i v) = bf_update s i v"

fun bf_exec :: "brute_force_index \<Rightarrow> index_op list \<Rightarrow> brute_force_index" where
  "bf_exec s [] = s"
| "bf_exec s (op # ops) = bf_exec (case bf_step s op of Inl e \<Rightarrow> s | Inr s' \<Rightarrow> s') ops"

text \<open>A \<^verbatim>\<open>build\<close> call with as many vectors as ids, and no id twice.\<close>

fun build_ok :: "index_op \<Rightarrow> bool" where
  "build_ok (Build vectors ids) = (length vectors = length ids \<and> distinct ids)"
| "build_ok _ = True"

text \<open>The vector stored for an id: \<^verbatim>\<open>self._vectors[self._pos[id]]\<close>.\<close>

definition bf_vector_of :: "brute_force_index \<Rightarrow> string \<Rightarrow> vector option" where
  "bf_vector_of s i = (case bf_pos s i of None \<Rightarrow> None | Some n \<Rightarrow> Some (bf_vectors s ! n))"

definition bf_inv :: "brute_force_index \<Rightarrow> bool" where
  "bf_inv s = (length (bf_ids s) = length (bf_vectors s) \<and> distinct (bf_ids s) \<and>
      (\<forall>i n. bf_pos s i = Some n \<longleftrightarrow> n < length (bf_ids s) \<and> bf_ids s ! n = i))"

section \<open>Sequences of operations on the LSH index\<close>

text \<open>
  \<open>lsh_exec\<close> runs a sequence of calls on one LSH index object; a call that raises leaves
  the object as it was (\<^verbatim>\<open>add\<close> and \<^verbatim>\<open>remove\<close> raise before they change anything, and
  the \<^verbatim>\<open>add\<close> inside \<^verbatim>\<open>update\<close> cannot raise once its \<^verbatim>\<open>remove\<close> has succeeded).
\<close>

fun lsh_step :: "gauss \<Rightarrow> lsh_index \<Rightarrow> index_op \<Rightarrow> error + lsh_index" where
  "lsh_step G s (Build vectors ids) = Inr (lsh_build G s vectors ids)"
| "lsh_step G s (Add v i) = lsh_add G s v i"
| "lsh_step G s (Remove i) = lsh_remove s i"
| "lsh_step G s (UpdateVec i v) = lsh_update G s i v"

fun lsh_exec :: "gauss \<Rightarrow> lsh_index \<Rightarrow> index_op list \<Rightarrow> lsh_index" where
  "lsh_exec G s [] = s"
| "lsh_exec G s (op # ops) = lsh_exec G (case lsh_step G s op of Inl e \<Rightarrow> s | Inr s' \<Rightarrow> s') ops"

text \<open>A \<^verbatim>\<open>build\<close> call that names no id twice.\<close>

fun distinct_ids :: "index_op \<Rightarrow> bool" where
  "distinct_ids (Build vectors ids) = distinct ids"
| "distinct_ids _ = True"

text \<open>
  The invariant of the two dictionaries: no id is stored twice; a bucket has no id twice
  and holds only stored ids, each under the hash of its stored vector; and the planes are
  missing only while nothing is stored or when the index is configured without planes.
\<close>

definition lsh_inv :: "lsh_index \<Rightarrow> bool" where
  "lsh_inv s = (distinct (map fst (lsh_id_to_vec s)) \<and>
     (\<forall>key b. lsh_buckets s key = Some b \<longrightarrow>
        distinct b \<and> (\<forall>i \<in> set b. \<exists>v. map_of (lsh_id_to_vec s) i = Some v \<and> lsh_hash s v = key)) \<and>
     (lsh_planes s = [] \<longrightarrow> lsh_id_to_vec s = [] \<or> lsh_num_planes s \<le> 0))"

section \<open>Reader-writer lock (app/domain/concurrency/rwlock.py)\<close>

text \<open>
  The three fields of \<^verbatim>\<open>RWLock\<close>.  Every method body runs under the lock's condition
  variable, so it is one atomic step, except where it waits: \<^verbatim>\<open>acquire_read\<close> changes
  nothing until its loop condition is false, so it is a step that is enabled only then
  (the result \<open>None\<close> means that the caller is blocked); \<^verbatim>\<open>acquire_write\<close> first counts
  the caller as waiting, which other threads see while it waits, and later enters, so
  it is two steps.  The \<^verbatim>\<open>finally\<close> clause of \<^verbatim>\<open>acquire_write\<close> takes the caller out of
  the waiting count both when it enters and when its wait is ended by an exception.
\<close>

record rwlock =
  readers :: int
  writers_waiting :: int
  writer_active :: bool

definition rwlock_init :: rwlock where
  "rwlock_init = \<lparr>readers = 0, writers_waiting = 0, writer_active = False\<rparr>"

definition acquire_read :: "rwlock \<Rightarrow> rwlock option" where
  "acquire_read l =
     (if writer_active l \<or> writers_waiting l > 0 then None
      else Some (l\<lparr>readers := readers l + 1\<rparr>))"

definition release_read :: "rwlock \<Rightarrow> rwlock" where
  "release_read l = l\<lparr>readers := readers l - 1\<rparr>"

definition acquire_write_begin :: "rwlock \<Rightarrow> rwlock" where
  "acquire_write_begin l = l\<lparr>writers_waiting := writers_waiting l + 1\<rparr>"

definition acquire_write_enter :: "rwlock \<Rightarrow> rwlock option" where
  "acquire_write_enter l =
     (if writer_active l \<or> readers l > 0 then None
      else Some (l\<lparr>writer_active := True, writers_waiting := writers_waiting l - 1\<rparr>))"

definition acquire_write_abort :: "rwlock \<Rightarrow> rwlock" where
  "acquire_write_abort l = l\<lparr>writers_waiting := writers_waiting l - 1\<rparr>"

definition release_write :: "rwlock \<Rightarrow> rwlock" where
  "release_write l = l\<lparr>writer_active := False\<rparr>"

text \<open>
  The threads that use one lock, each through the scoped sections \<^verbatim>\<open>read_lock()\<close> and
  \<^verbatim>\<open>write_lock()\<close>: a thread releases only what it holds.  A thread is outside the
  lock, holds it for reading, waits inside \<^verbatim>\<open>acquire_write\<close>, or holds it for writing.
\<close>

datatype thread_state = Outside | Reading | WaitingToWrite | Writing

datatype lock_action = AcquireRead | ReleaseRead | AcquireWriteBegin | AcquireWriteEnter
  | AcquireWriteAbort | ReleaseWrite

record lock_system =
  lock :: rwlock
  threads :: "nat \<Rightarrow> thread_state"

definition lock_system_init :: lock_system where
  "lock_system_init = \<lparr>lock = rwlock_init, threads = (\<lambda>_. Outside)\<rparr>"

inductive lock_step :: "lock_system \<Rightarrow> nat \<Rightarrow> lock_action \<Rightarrow> lock_system \<Rightarrow> bool" where
  acquire_read_step:
    "threads s t = Outside \<Longrightarrow> acquire_read (lock s) = Some l' \<Longrightarrow>
       lock_step s t AcquireRead (s\<lparr>lock := l', threads := (threads s)(t := Reading)\<rparr>)"
| release_read_step:
    "threads s t = Reading \<Longrightarrow>
       lock_step s t ReleaseRead
         (s\<lparr>lock := release_read (lock s), threads := (threads s)(t := Outside)\<rparr>)"
| acquire_write_begin_step:
    "threads s t = Outside \<Longrightarrow>
       lock_step s t AcquireWriteBegin
         (s\<lparr>lock := acquire_write_begin (lock s), threads := (threads s)(t := WaitingToWrite)\<rparr>)"
| acquire_write_enter_step:
    "threads s t = WaitingToWrite \<Longrightarrow> acquire_write_enter (lock s) = Some l' \<Longrightarrow>
       lock_step s t AcquireWriteEnter (s\<lparr>lock := l', threads := (threads s)(t := Writing)\<rparr>)"
| acquire_write_abort_step:
    "threads s t = WaitingToWrite \<Longrightarrow>
       lock_step s t AcquireWriteAbort
         (s\<lparr>lock := acquire_write_abort (lock s), threads := (threads s)(t := Outside)\<rparr>)"
| release_write_step:
    "threads s t = Writing \<Longrightarrow>
       lock_step s t ReleaseWrite
         (s\<lparr>lock := release_write (lock s), threads := (threads s)(t := Outside)\<rparr>)"

inductive lock_reachable :: "lock_system \<Rightarrow> bool" where
  reachable_init: "lock_reachable lock_system_init"
| reachable_step: "lock_reachable s \<Longrightarrow> lock_step s t a s' \<Longrightarrow> lock_reachable s'"

text \<open>The invariant that ties the counters of the lock to the threads.\<close>

definition in_state :: "lock_system \<Rightarrow> thread_state \<Rightarrow> nat set" where
  "in_state s c = {t. threads s t = c}"

definition lock_inv :: "lock_system \<Rightarrow> bool" where
  "lock_inv s =
     (finite (in_state s Reading) \<and> finite (in_state s WaitingToWrite) \<and>
      readers (lock s) = int (card (in_state s Reading)) \<and>
      writers_waiting (lock s) = int (card (in_state s WaitingToWrite)) \<and>
      (writer_active (lock s) \<longleftrightarrow> in_state s Writing \<noteq> {}) \<and>
      (\<forall>t u. t \<in> in_state s Writing \<and> u \<in> in_state s Writing \<longrightarrow> t = u) \<and>
      (in_state s Writing \<noteq> {} \<longrightarrow> in_state s Reading = {}))"

section \<open>Document and library services (app/domain/services)\<close>

text \<open>\<^verbatim>\<open>DocumentService.delete\<close> deletes the document and nothing else.\<close>

definition document_delete :: "system \<Rightarrow> string \<Rightarrow> (error + unit) \<times> system" where
  "document_delete s document_id =
     (case documents_delete (sys_documents s) document_id of
        Inl e \<Rightarrow> (Inl e, s)
      | Inr r \<Rightarrow> (Inr (), s\<lparr>sys_documents := r\<rparr>))"

text \<open>
  \<^verbatim>\<open>LibraryService.delete\<close>.  The inner loop \<^verbatim>\<open>for ch in list_by_document(d.id)\<close> is
  \<open>delete_chunks\<close>, the outer loop \<^verbatim>\<open>for d in docs\<close> is \<open>cascade_documents\<close>, the body of
  \<^verbatim>\<open>if cascade:\<close> is \<open>delete_descendants\<close>; the library itself is deleted after it.
\<close>

fun delete_chunks :: "chunk_repo \<Rightarrow> chunk list \<Rightarrow> (error + unit) \<times> chunk_repo" where
  "delete_chunks r [] = (Inr (), r)"
| "delete_chunks r (c # cs) =
     (case chunks_delete r (chunk_id c) of
        Inl e \<Rightarrow> (Inl e, r)
      | Inr r' \<Rightarrow> delete_chunks r' cs)"

fun cascade_documents :: "system \<Rightarrow> document list \<Rightarrow> (error + unit) \<times> system" where
  "cascade_documents s [] = (Inr (), s)"
| "cascade_documents s (d # ds) =
     (case chunks_list_by_document (sys_chunks s) (doc_id d) of
        Inl e \<Rightarrow> (Inl e, s)
      | Inr chs \<Rightarrow>
          (case delete_chunks (sys_chunks s) chs of
             (Inl e, r) \<Rightarrow> (Inl e, s\<lparr>sys_chunks := r\<rparr>)
           | (Inr _, r) \<Rightarrow>
               (case documents_delete (sys_documents s) (doc_id d) of
                  Inl e \<Rightarrow> (Inl e, s\<lparr>sys_chunks := r\<rparr>)
                | Inr dr \<Rightarrow> cascade_documents (s\<lparr>sys_chunks := r, sys_documents := dr\<rparr>) ds)))"

definition delete_descendants :: "system \<Rightarrow> string \<Rightarrow> (error + unit) \<times> system" where
  "delete_descendants s library_id =
     (case documents_list_by_library (sys_documents s) library_id of
        Inl e \<Rightarrow> (Inl e, s)
      | Inr docs \<Rightarrow> cascade_documents s docs)"

definition library_delete :: "system \<Rightarrow> string \<Rightarrow> bool \<Rightarrow> (error + unit) \<times> system" where
  "library_delete s library_id cascade =
     (case libraries_get (sys_libraries s) library_id of
        Inl e \<Rightarrow> (Inl e, s)
      | Inr _ \<Rightarrow>
          (case (if cascade then delete_descendants s library_id else (Inr (), s)) of
             (Inl e, s1) \<Rightarrow> (Inl e, s1)
           | (Inr _, s1) \<Rightarrow>
               (case libraries_delete (sys_libraries s1) library_id of
                  Inl e \<Rightarrow> (Inl e, s1)
                | Inr lr \<Rightarrow> (Inr (), s1\<lparr>sys_libraries := lr\<rparr>))))"

text \<open>
  Consistency of a repository with its secondary indexes, as \<^verbatim>\<open>create\<close> and \<^verbatim>\<open>delete\<close>
  keep it: an entity is stored under its own id, and the set kept for a parent id holds
  exactly the ids of the stored entities with that parent.
\<close>

definition chunk_repo_wf :: "chunk_repo \<Rightarrow> bool" where
  "chunk_repo_wf r =
     ((\<forall>i c. ch_items r i = Some c \<longrightarrow> chunk_id c = i) \<and>
      (\<forall>l. distinct (ch_by_library r l) \<and>
           set (ch_by_library r l) = {i. \<exists>c. ch_items r i = Some c \<and> chunk_library_id c = l}) \<and>
      (\<forall>d. distinct (ch_by_document r d) \<and>
           set (ch_by_document r d) = {i. \<exists>c. ch_items r i = Some c \<and> chunk_document_id c = d}))"

definition document_repo_wf :: "document_repo \<Rightarrow> bool" where
  "document_repo_wf r =
     ((\<forall>i d. doc_items r i = Some d \<longrightarrow> doc_id d = i) \<and>
      (\<forall>l. distinct (doc_by_library r l) \<and>
           set (doc_by_library r l) = {i. \<exists>d. doc_items r i = Some d \<and> doc_library_id d = l}))"

text \<open>A repository with the entities of some ids taken out (used to state what a cascade leaves).\<close>

definition chunks_without :: "chunk_repo \<Rightarrow> string set \<Rightarrow> chunk_repo" where
  "chunks_without r ids =
     r\<lparr>ch_items := (\<lambda>i. if i \<in> ids then None else ch_items r i),
       ch_by_library := (\<lambda>l. filter (\<lambda>i. i \<notin> ids) (ch_by_library r l)),
       ch_by_document := (\<lambda>d. filter (\<lambda>i. i \<notin> ids) (ch_by_document r d))\<rparr>"

definition documents_without :: "document_repo \<Rightarrow> string set \<Rightarrow> document_repo" where
  "documents_without r ids =
     r\<lparr>doc_items := (\<lambda>i. if i \<in> ids then None else doc_items r i),
       doc_by_library := (\<lambda>l. filter (\<lambda>i. i \<notin> ids) (doc_by_library r l))\<rparr>"

text \<open>The ids of the documents of a library, and of the chunks attached to them.\<close>

definition documents_of :: "system \<Rightarrow> string \<Rightarrow> string set" where
  "documents_of s library_id =
     {i. \<exists>d. doc_items (sys_documents s) i = Some d \<and> doc_library_id d = library_id}"

definition chunks_under :: "system \<Rightarrow> string set \<Rightarrow> string set" where
  "chunks_under s docs = {i. \<exists>c. ch_items (sys_chunks s) i = Some c \<and> chunk_document_id c \<in> docs}"

text \<open>
  A library \<open>L\<close> with one document \<open>D\<close> and one chunk \<open>c1\<close> of that document; nothing else.
\<close>

definition cascade_example :: system where
  "cascade_example = empty_system\<lparr>
       sys_libraries := [''L'' \<mapsto> \<lparr>lib_id = ''L'', lib_name = ''lib'', lib_embedding_dimension = 4,
                                   lib_default_index_type = BRUTE_FORCE\<rparr>],
       sys_documents := \<lparr>doc_items = [''D'' \<mapsto> \<lparr>doc_id = ''D'', doc_library_id = ''L'', doc_title = ''doc''\<rparr>],
                         doc_by_library = (\<lambda>_. [])(''L'' := [''D''])\<rparr>,
       sys_chunks := \<lparr>ch_items = [''c1'' \<mapsto> mk_chunk ''c1'' [1, 0, 0, 0]],
                      ch_by_library = (\<lambda>_. [])(''L'' := [''c1'']),
                      ch_by_document = (\<lambda>_. [])(''D'' := [''c1''])\<rparr>\<rparr>"

section \<open>Query service (app/domain/services/query_service.py)\<close>

text \<open>
  The argument \<^verbatim>\<open>filter_dto: Optional[dict]\<close>.  \<^verbatim>\<open>knn\<close> and \<^verbatim>\<open>_matches_filter\<close> observe a
  dictionary in two ways only: by its truth value (\<^verbatim>\<open>if filter_dto:\<close>, false for \<^verbatim>\<open>{}\<close> and
  true for every dictionary with a key) and by \<^verbatim>\<open>.get\<close> on six keys, which answers \<^verbatim>\<open>None\<close>
  for a missing key as for a key bound to \<^verbatim>\<open>None\<close>.  So a dictionary is either empty, or
  it has some key and is described by the six values \<^verbatim>\<open>.get\<close> returns; these may all be
  \<^verbatim>\<open>None\<close>, as in the dictionary \<^verbatim>\<open>QueryFilter().model_dump()\<close> the router passes for a
  filter without fields.  The values have the types \<^verbatim>\<open>QueryFilter\<close> (app/api/schemas.py)
  declares.
\<close>

record query_filter =
  f_tags_any :: "string list option"
  f_tags_all :: "string list option"
  f_author_in :: "string list option"
  f_created_at_from :: "string option"
  f_created_at_to :: "string option"
  f_text_contains :: "string option"

datatype filter_dict = Empty_dict | Dict query_filter

text \<open>Python's \<^verbatim>\<open>needle in haystack\<close> on strings: a contiguous occurrence.\<close>

fun starts_with :: "'a list \<Rightarrow> 'a list \<Rightarrow> bool" where
  "starts_with ys [] = True"
| "starts_with [] (x # xs) = False"
| "starts_with (y # ys) (x # xs) = (x = y \<and> starts_with ys xs)"

fun contains :: "'a list \<Rightarrow> 'a list \<Rightarrow> bool" where
  "contains [] needle = (needle = [])"
| "contains (y # ys) needle = (starts_with (y # ys) needle \<or> contains ys needle)"

text \<open>
  \<^verbatim>\<open>datetime.fromisoformat\<close> is a library function; it is a parameter of the model, with
  \<open>None\<close> for the \<^verbatim>\<open>ValueError\<close> it raises on a string it cannot parse.  The two
  \<^verbatim>\<open>try\<close> blocks of \<^verbatim>\<open>_matches_filter\<close> swallow every exception of the parse and of the
  comparison that follows it.
\<close>

type_synonym iso_parser = "string \<Rightarrow> datetime option"

definition before_from :: "iso_parser \<Rightarrow> chunk \<Rightarrow> string option \<Rightarrow> bool" where
  "before_from P c fmt_from =
     (case fmt_from of
        None \<Rightarrow> False
      | Some t \<Rightarrow>
          if t = [] then False
          else (case P t of
                  None \<Rightarrow> False
                | Some dfrom \<Rightarrow>
                    (case dt_less (chunk_created_at c) dfrom of Inl e \<Rightarrow> False | Inr b \<Rightarrow> b)))"

definition after_to :: "iso_parser \<Rightarrow> chunk \<Rightarrow> string option \<Rightarrow> bool" where
  "after_to P c fmt_to =
     (case fmt_to of
        None \<Rightarrow> False
      | Some t \<Rightarrow>
          if t = [] then False
          else (case P t of
                  None \<Rightarrow> False
                | Some dto \<Rightarrow>
                    (case dt_less dto (chunk_created_at c) of Inl e \<Rightarrow> False | Inr b \<Rightarrow> b)))"

definition or_empty :: "'a list option \<Rightarrow> 'a list" where
  "or_empty v = (case v of None \<Rightarrow> [] | Some l \<Rightarrow> l)"

definition matches_filter :: "iso_parser \<Rightarrow> chunk \<Rightarrow> query_filter \<Rightarrow> bool" where
  "matches_filter P c f =
     (let text_contains = lower (strip (or_empty (f_text_contains f))) in
      if text_contains \<noteq> [] \<and> \<not> contains (lower (chunk_text c)) text_contains then False
      else if before_from P c (f_created_at_from f) then False
      else if after_to P c (f_created_at_to f) then False
      else let meta = chunk_metadata c;
               tags_any = or_empty (f_tags_any f);
               tags_all = or_empty (f_tags_all f);
               author_in = or_empty (f_author_in f)
           in if tags_any \<noteq> [] \<and> \<not> list_ex (\<lambda>t. t \<in> set (meta_tags meta)) tags_any then False
              else if tags_all \<noteq> [] \<and> \<not> list_all (\<lambda>t. t \<in> set (meta_tags meta)) tags_all then False
              else if author_in \<noteq> [] \<and>
                      (case meta_author meta of None \<Rightarrow> True | Some a \<Rightarrow> a \<notin> set author_in)
                   then False
              else True)"

text \<open>
  \<^verbatim>\<open>knn\<close>: the result, the state (the staleness check creates the version entry, a
  scheduled rebuild sets the building flag) and the rebuild job it has started, if any.
  The flag \<^verbatim>\<open>settings.allow_stale_index\<close> is the parameter \<open>allow_stale\<close>.  The filtered
  path is taken when \<^verbatim>\<open>filter_dto\<close> is true: neither \<^verbatim>\<open>None\<close> nor the empty dictionary.
\<close>

definition transient_search :: "chunk list \<Rightarrow> vector \<Rightarrow> int \<Rightarrow> (string \<times> real) list" where
  "transient_search cs query k =
     bf_search (bf_build (bf_init True) (map chunk_embedding cs) (map chunk_id cs)) query k"

definition knn_unfiltered ::
  "bool \<Rightarrow> system \<Rightarrow> string \<Rightarrow> vector \<Rightarrow> int
     \<Rightarrow> (error + (string \<times> real) list) \<times> system \<times> job option" where
  "knn_unfiltered allow_stale s library_id query k =
     (let (stale, vm) = is_index_stale (sys_versions s) library_id;
          s0 = s\<lparr>sys_versions := vm\<rparr>
      in if stale then
           (case chunks_list_by_library (sys_chunks s0) library_id of
              Inl e \<Rightarrow> (Inl e, s0, None)
            | Inr cs \<Rightarrow>
                let (s1, j) = rebuild_async_using_existing_type s0 library_id cs in
                if \<not> allow_stale then (Inr (transient_search cs query k), s1, j)
                else (index_search s1 library_id query k, s1, j))
         else (index_search s0 library_id query k, s0, None))"

definition knn ::
  "iso_parser \<Rightarrow> bool \<Rightarrow> system \<Rightarrow> string \<Rightarrow> vector \<Rightarrow> int \<Rightarrow> filter_dict option
     \<Rightarrow> (error + (string \<times> real) list) \<times> system \<times> job option" where
  "knn P allow_stale s library_id query k filter_dto =
     (case filter_dto of
        None \<Rightarrow> knn_unfiltered allow_stale s library_id query k
      | Some Empty_dict \<Rightarrow> knn_unfiltered allow_stale s library_id query k
      | Some (Dict f) \<Rightarrow>
          (case chunks_list_by_library (sys_chunks s) library_id of
             Inl e \<Rightarrow> (Inl e, s, None)
           | Inr chunks \<Rightarrow>
               (Inr (transient_search (filter (\<lambda>c. matches_filter P c f) chunks) query k), s, None)))"











section \<open>Notions for the correctness of the KD-tree\<close>

text \<open>
  The (point, id) pairs a tree holds, and the ordering invariant of a kd-tree over points
  of dimension \<open>d\<close>: at a node with splitting axis \<open>ax\<close>, no point of the left subtree lies
  above the node's point on that axis and no point of the right subtree below it.
\<close>

fun tree_items :: "node \<Rightarrow> (vector \<times> string) set" where
  "tree_items Leaf = {}"
| "tree_items (Node p i ax l r) = insert (p, i) (tree_items l \<union> tree_items r)"

fun kd_inv :: "nat \<Rightarrow> node \<Rightarrow> bool" where
  "kd_inv d Leaf = True"
| "kd_inv d (Node p i ax l r) =
     (ax < d \<and> length p = d \<and>
      (\<forall>x \<in> tree_items l. fst x ! ax \<le> p ! ax) \<and>
      (\<forall>x \<in> tree_items r. p ! ax \<le> fst x ! ax) \<and>
      kd_inv d l \<and> kd_inv d r)"

text \<open>
  The candidates a subtree offers to a query: each stored point with its squared distance.
\<close>

definition candidates :: "vector \<Rightarrow> node \<Rightarrow> (real \<times> string) set" where
  "candidates q t = (\<lambda>x. (distance_sq q (fst x), snd x)) ` tree_items t"

text \<open>
  The step of \<^verbatim>\<open>_search_node\<close> that offers a node's point to the candidate list:
  append, sort by distance, and drop the worst candidate when more than \<open>k\<close> are held.
\<close>

definition keep_best :: "int \<Rightarrow> (real \<times> string) list \<Rightarrow> real \<times> string \<Rightarrow> (real \<times> string) list" where
  "keep_best k best c =
     (let best1 = sort_key fst (best @ [c])
      in if int (length best1) > k then butlast best1 else best1)"

section \<open>An index in step with the repository\<close>

text \<open>
  The ids an index holds, and the condition on its tables under which the incremental
  calls cannot fail: the three tables of the brute-force index agree (\<open>bf_inv\<close>); the
  points of the KD-tree all have one positive dimension \<open>d\<close>, so that a rebuild does not
  raise; the LSH index needs nothing.
\<close>

fun index_ids :: "vector_index \<Rightarrow> string set" where
  "index_ids (BruteForceIndex b) = set (bf_ids b)"
| "index_ids (KDTreeIndex t) = fst ` set (kd_id_to_point t)"
| "index_ids (RandomHyperplaneLSHIndex h) = fst ` set (lsh_id_to_vec h)"

fun index_ok :: "nat \<Rightarrow> vector_index \<Rightarrow> bool" where
  "index_ok d (BruteForceIndex b) = bf_inv b"
| "index_ok d (KDTreeIndex t) = (0 < d \<and> list_all (\<lambda>x. length (snd x) = d) (kd_id_to_point t))"
| "index_ok d (RandomHyperplaneLSHIndex h) = True"

text \<open>
  The chunks the repository holds for a library, and the state in which every live index
  is in step with the repository: the index holds exactly the ids of its library's
  chunks, its tables are in order, and the dimension of its points is the library's.  A
  chunk is stored under its own id.  This is the state \<^verbatim>\<open>build_index\<close> leaves when it is
  given the chunks the library has at the time the index is published (lemma
  \<open>build_index_consistent\<close> below).
\<close>

definition library_chunks :: "system \<Rightarrow> string \<Rightarrow> string set" where
  "library_chunks s l = {cid. \<exists>ch. ch_items (sys_chunks s) cid = Some ch \<and> chunk_library_id ch = l}"

definition in_step :: "system \<Rightarrow> bool" where
  "in_step s =
     ((\<forall>cid ch. ch_items (sys_chunks s) cid = Some ch \<longrightarrow> chunk_id ch = cid) \<and>
      (\<forall>l idx. sys_indexes s l = Some idx \<longrightarrow>
         index_ids idx = library_chunks s l \<and>
         (\<exists>d. index_ok d idx \<and>
              (\<forall>lib. sys_libraries s l = Some lib \<longrightarrow> lib_embedding_dimension lib = int d))))"

definition consistent :: "system \<Rightarrow> bool" where
  "consistent s = (versions_ok s \<and> in_step s)"

text \<open>
  The checks a request has to pass before the chunk service changes anything: the
  look-ups, the comparison of the embedding's length with the library's dimension, the
  constructor's validation and the repository's test for a known id.
\<close>

fun passes_checks :: "system \<Rightarrow> chunk_op \<Rightarrow> bool" where
  "passes_checks s (Create library_id document_id text embedding fresh_id now) =
     (\<not> isl (libraries_get (sys_libraries s) library_id) \<and>
      \<not> isl (documents_get (sys_documents s) document_id) \<and>
      \<not> isl (validate_embedding s library_id embedding) \<and>
      \<not> isl (new_chunk fresh_id now library_id document_id text embedding) \<and>
      fresh_id \<notin> dom (ch_items (sys_chunks s)))"
| "passes_checks s (Update cid text embedding) =
     (case ch_items (sys_chunks s) cid of
        None \<Rightarrow> False
      | Some ch \<Rightarrow>
          (case embedding of
             None \<Rightarrow> True
           | Some e \<Rightarrow> \<not> isl (validate_embedding s (chunk_library_id ch) e)))"
| "passes_checks s (Delete cid) = (cid \<in> dom (ch_items (sys_chunks s)))"

text \<open>
  A state in which the live index has fallen behind: the chunk \<open>c1\<close> is created while a
  build is under way that has read the library's chunks before (none), and the build then
  publishes its index, without \<open>c1\<close>, as current.
\<close>

definition lagging_example :: "gauss \<Rightarrow> system" where
  "lagging_example G =
     snd (build_index G
            (snd (chunk_create G example_system ''L'' ''D'' ''t'' [1, 0, 0, 0] ''c1'' 0))
            ''L'' BRUTE_FORCE [])"

section \<open>Duplicate ids on \<open>add\<close>\<close>

lemma bf_add_duplicate: "i \<in> dom (bf_pos s) \<Longrightarrow> bf_add s v i = Inl DuplicateId"
  by (simp add: bf_add_def)

lemma lsh_add_duplicate:
  "i \<in> fst ` set (lsh_id_to_vec s) \<Longrightarrow> lsh_add G s v i = Inl DuplicateId"
  by (simp add: lsh_add_def)

lemma normalize_unit2: "normalize [1, 0] = [1, 0]" "normalize [0, 1] = [0, 1]"
  by (simp_all add: normalize_def l2_norm_def)

text \<open>
  Claim C3 (every index variant refuses \<open>add\<close> of an id that is already present with
  Duplicate).  The brute-force and the LSH index do (\<open>bf_add_duplicate\<close>,
  \<open>lsh_add_duplicate\<close>); the KD-tree index does not check.  On the index built from the
  one vector \<open>[1, 0]\<close> with id \<open>a\<close>, \<open>add([0, 1], a)\<close> on the KD-tree succeeds: it rebuilds
  a tree of two nodes that both carry the id \<open>a\<close> and reports size 2, while the id
  dictionary holds one entry.
\<close>

theorem kd_add_accepts_present_id:
  "kd_build kd_init [[1, 0]] [''a''] =
     Inr \<lparr>kd_root = Node [1, 0] ''a'' 0 Leaf Leaf, kd_size = 1, kd_dim = 2,
          kd_id_to_point = [(''a'', [1, 0])]\<rparr>
   \<and> kd_add \<lparr>kd_root = Node [1, 0] ''a'' 0 Leaf Leaf, kd_size = 1, kd_dim = 2,
          kd_id_to_point = [(''a'', [1, 0])]\<rparr> [0, 1] ''a'' =
     Inr \<lparr>kd_root = Node [1, 0] ''a'' 0 (Node [0, 1] ''a'' 1 Leaf Leaf) Leaf,
          kd_size = 2, kd_dim = 2, kd_id_to_point = [(''a'', [1, 0])]\<rparr>"
  by (simp add: kd_add_def kd_build_def kd_init_def normalize_unit2 sort_by_axis_def
      dict_of_items_def)

section \<open>The version protocol under the requests of the chunk service\<close>

lemma vinfo_bump: "vinfo (snd (bump_data vm l)) l' =
   (if l' = l then (vinfo vm l)\<lparr>data_version := data_version (vinfo vm l) + 1\<rparr> else vinfo vm l')"
  by (auto simp: vinfo_def bump_data_def vm_setdefault_def Let_def split: option.splits)

lemma vinfo_set: "vinfo (snd (set_index_version vm l v)) l' =
   (if l' = l then (vinfo vm l)\<lparr>index_version := v\<rparr> else vinfo vm l')"
  by (auto simp: vinfo_def set_index_version_def vm_setdefault_def Let_def split: option.splits)

lemma vinfo_get: "vinfo (snd (vm_get vm l)) l' = vinfo vm l'" "fst (vm_get vm l) = vinfo vm l"
  by (auto simp: vinfo_def vm_get_def vm_setdefault_def Let_def split: option.splits)

lemma version_of_vinfo: "version_of s l = vinfo (sys_versions s) l"
  by (simp add: version_of_def vinfo_get)

lemma stale_vinfo: "fst (is_index_stale vm l) = (index_version (vinfo vm l) \<noteq> data_version (vinfo vm l))"
  by (auto simp: vinfo_def is_index_stale_def split: prod.splits)

lemma vinfo_sync: "vinfo (sys_versions (sync_index_version s l)) l' =
   (if l' = l then (vinfo (sys_versions s) l)\<lparr>index_version := data_version (vinfo (sys_versions s) l)\<rparr>
    else vinfo (sys_versions s) l')"
  by (simp add: sync_index_version_def split_beta Let_def vinfo_set vinfo_get)

lemma sync_other: "sys_indexes (sync_index_version s l) = sys_indexes s"
  "sys_chunks (sync_index_version s l) = sys_chunks s"
  by (simp_all add: sync_index_version_def split_beta Let_def)

lemma add_chunk_versions:
  "vinfo (sys_versions (snd (add_chunk G s l c))) l' =
       (if l' = l \<and> \<not> isl (fst (add_chunk G s l c)) \<and> sys_indexes s l \<noteq> None
        then synced (vinfo (sys_versions s) l) else vinfo (sys_versions s) l')"
  by (auto simp: add_chunk_def vinfo_sync synced_def split: option.splits sum.splits)

lemma remove_chunk_versions:
  "vinfo (sys_versions (snd (remove_chunk s l c))) l' =
       (if l' = l \<and> \<not> isl (fst (remove_chunk s l c)) \<and> sys_indexes s l \<noteq> None
        then synced (vinfo (sys_versions s) l) else vinfo (sys_versions s) l')"
  by (auto simp: remove_chunk_def vinfo_sync synced_def split: option.splits sum.splits)

lemma update_chunk_versions:
  "vinfo (sys_versions (snd (update_chunk G s l c))) l' =
       (if l' = l \<and> \<not> isl (fst (update_chunk G s l c)) \<and> sys_indexes s l \<noteq> None
        then synced (vinfo (sys_versions s) l) else vinfo (sys_versions s) l')"
  by (auto simp: update_chunk_def vinfo_sync synced_def split: option.splits sum.splits)

lemma relabel: "(case p of (Inl e, s3) \<Rightarrow> (Inl e, s3) | (Inr x, s3) \<Rightarrow> (Inr c, s3)) = (r, s')
   \<Longrightarrow> s' = snd p \<and> isl r = isl (fst p)"
  by (auto split: prod.splits sum.splits)

lemma create_versions:
  assumes "chunk_create G s l d t e i n = (r, s')"
  shows "(s' = s \<and> isl r) \<or> versions_effect s s' l (\<not> isl r \<and> sys_indexes s l \<noteq> None)"
proof (cases "\<exists>c rp. new_chunk i n l d t e = Inr c \<and> chunks_create (sys_chunks s) c = Inr rp
      \<and> \<not> isl (libraries_get (sys_libraries s) l) \<and> \<not> isl (documents_get (sys_documents s) d)
      \<and> \<not> isl (validate_embedding s l e)")
  case False
  with assms have "s' = s \<and> isl r"
    by (auto simp: chunk_create_def split: sum.splits) (metis sum.disc(1))+
  then show ?thesis ..
next
  case True
  then obtain c rp where c: "new_chunk i n l d t e = Inr c" "chunks_create (sys_chunks s) c = Inr rp"
     "\<not> isl (libraries_get (sys_libraries s) l)" "\<not> isl (documents_get (sys_documents s) d)"
     "\<not> isl (validate_embedding s l e)" by blast
  define s2 where "s2 = s\<lparr>sys_chunks := rp, sys_versions := snd (bump_data (sys_versions s) l)\<rparr>"
  from assms c have "(case add_chunk G s2 l c of (Inl e, s3) \<Rightarrow> (Inl e, s3) | (Inr x, s3) \<Rightarrow> (Inr c, s3)) = (r, s')"
    by (auto simp: chunk_create_def s2_def split_beta Let_def split: sum.splits)
  from relabel[OF this] have r: "s' = snd (add_chunk G s2 l c)" "isl r = isl (fst (add_chunk G s2 l c))" by auto
  have "versions_effect s s' l (\<not> isl r \<and> sys_indexes s l \<noteq> None)"
    unfolding versions_effect_def r add_chunk_versions
    by (simp add: s2_def vinfo_bump bumped_def)
  then show ?thesis ..
qed

lemma delete_versions:
  assumes "chunk_delete s cid = (r, s')"
  shows "(s' = s \<and> isl r) \<or> (\<exists>ch. ch_items (sys_chunks s) cid = Some ch \<and> 
     versions_effect s s' (chunk_library_id ch) (\<not> isl r \<and> sys_indexes s (chunk_library_id ch) \<noteq> None))"
proof (cases "\<exists>ch rp. ch_items (sys_chunks s) cid = Some ch \<and> chunks_delete (sys_chunks s) cid = Inr rp")
  case False
  with assms have "s' = s \<and> isl r"
    by (auto simp: chunk_delete_def chunks_get_def split: sum.splits option.splits)
  then show ?thesis ..
next
  case True
  then obtain ch rp where c: "ch_items (sys_chunks s) cid = Some ch" "chunks_delete (sys_chunks s) cid = Inr rp"
    by blast
  define s2 where "s2 = s\<lparr>sys_chunks := rp, sys_versions := snd (bump_data (sys_versions s) (chunk_library_id ch))\<rparr>"
  from assms c have r: "remove_chunk s2 (chunk_library_id ch) cid = (r, s')"
    by (auto simp: chunk_delete_def chunks_get_def s2_def split_beta Let_def split: sum.splits)
  have "\<And>l'. vinfo (sys_versions s') l' =
       (if l' = chunk_library_id ch \<and> \<not> isl r \<and> sys_indexes s2 (chunk_library_id ch) \<noteq> None
        then synced (vinfo (sys_versions s2) (chunk_library_id ch)) else vinfo (sys_versions s2) l')"
    using remove_chunk_versions[of s2 "chunk_library_id ch" cid] by (simp add: r)
  then have "versions_effect s s' (chunk_library_id ch) (\<not> isl r \<and> sys_indexes s (chunk_library_id ch) \<noteq> None)"
    unfolding versions_effect_def
    by (simp add: s2_def vinfo_bump bumped_def)
  with c show ?thesis by blast
qed

lemma update_versions:
  assumes "chunk_update G s cid t e = (r, s')"
  shows "(s' = s \<and> isl r) \<or> (\<exists>ch. ch_items (sys_chunks s) cid = Some ch \<and> 
     versions_effect s s' (chunk_library_id ch) (\<not> isl r \<and> e \<noteq> None \<and> sys_indexes s (chunk_library_id ch) \<noteq> None))"
proof (cases "\<exists>ch res rp. ch_items (sys_chunks s) cid = Some ch \<and> chunks_update (sys_chunks s) cid t e = Inr (res, rp)
     \<and> (case e of None \<Rightarrow> True | Some em \<Rightarrow> \<not> isl (validate_embedding s (chunk_library_id ch) em))")
  case False
  with assms have "s' = s \<and> isl r"
    by (auto simp: chunk_update_def chunks_get_def split: sum.splits option.splits)
  then show ?thesis ..
next
  case True
  then obtain ch res rp where c: "ch_items (sys_chunks s) cid = Some ch" "chunks_update (sys_chunks s) cid t e = Inr (res, rp)"
    "(case e of None \<Rightarrow> True | Some em \<Rightarrow> \<not> isl (validate_embedding s (chunk_library_id ch) em))"
    by blast
  define s2 where "s2 = s\<lparr>sys_chunks := rp, sys_versions := snd (bump_data (sys_versions s) (chunk_library_id ch))\<rparr>"
  have "versions_effect s s' (chunk_library_id ch) (\<not> isl r \<and> e \<noteq> None \<and> sys_indexes s (chunk_library_id ch) \<noteq> None)"
  proof (cases e)
    case None
    with assms c have "s' = s2" 
      by (auto simp: chunk_update_def chunks_get_def s2_def split_beta Let_def split: sum.splits)
    then show ?thesis unfolding versions_effect_def using None
      by (simp add: s2_def vinfo_bump bumped_def)
  next
    case (Some em)
    with assms c have "(case update_chunk G s2 (chunk_library_id ch) res of (Inl e, s3) \<Rightarrow> (Inl e, s3) | (Inr x, s3) \<Rightarrow> (Inr res, s3)) = (r, s')"
      by (auto simp: chunk_update_def chunks_get_def s2_def split_beta Let_def split: sum.splits)
    from relabel[OF this] have r: "s' = snd (update_chunk G s2 (chunk_library_id ch) res)"
       "isl r = isl (fst (update_chunk G s2 (chunk_library_id ch) res))" by auto
    show ?thesis
      unfolding versions_effect_def r update_chunk_versions using Some
      by (simp add: s2_def vinfo_bump bumped_def)
  qed
  with c show ?thesis by blast
qed

lemma effect_step:
  assumes "versions_ok s" "versions_effect s s' l sync"
  shows "versions_ok s'"
    and "\<forall>l'. index_version (version_of s l') \<le> index_version (version_of s' l')"
    and "sync \<Longrightarrow> index_version (version_of s' l) = data_version (version_of s' l)
           \<and> \<not> fst (is_index_stale (sys_versions s') l)"
  using assms
  by (auto simp: versions_ok_def versions_effect_def version_of_vinfo stale_vinfo bumped_def synced_def
      intro: order_trans)

lemma apply_op_step:
  assumes ok: "versions_ok s" and ap: "apply_op G s op = (r, s')"
  shows "versions_ok s' \<and> step_ok s op r s'"
proof (cases op)
  case (Create l d t e i n)
  obtain r0 where r0: "chunk_create G s l d t e i n = (r0, s')" and rr: "(r = None) = (\<not> isl r0)"
    using ap Create by (auto split: prod.splits sum.splits)
  from create_versions[OF r0] show ?thesis
  proof
    assume "s' = s \<and> isl r0"
    then show ?thesis using ok rr by (auto simp: step_ok_def)
  next
    assume e: "versions_effect s s' l (\<not> isl r0 \<and> sys_indexes s l \<noteq> None)"
    from effect_step[OF ok e] show ?thesis using rr Create
      by (auto simp: step_ok_def)
  qed
next
  case (Update cid t e)
  obtain r0 where r0: "chunk_update G s cid t e = (r0, s')" and rr: "(r = None) = (\<not> isl r0)"
    using ap Update by (auto split: prod.splits sum.splits)
  from update_versions[OF r0] show ?thesis
  proof
    assume "s' = s \<and> isl r0"
    then show ?thesis using ok rr by (auto simp: step_ok_def)
  next
    assume "\<exists>ch. ch_items (sys_chunks s) cid = Some ch \<and>
       versions_effect s s' (chunk_library_id ch) (\<not> isl r0 \<and> e \<noteq> None \<and> sys_indexes s (chunk_library_id ch) \<noteq> None)"
    then obtain ch where ch: "ch_items (sys_chunks s) cid = Some ch"
      and e: "versions_effect s s' (chunk_library_id ch) (\<not> isl r0 \<and> e \<noteq> None \<and> sys_indexes s (chunk_library_id ch) \<noteq> None)"
      by blast
    from effect_step[OF ok e] show ?thesis using rr Update ch
      by (cases e) (auto simp: step_ok_def live_library_of_def split: if_splits)
  qed
next
  case (Delete cid)
  obtain r0 where r0: "chunk_delete s cid = (r0, s')" and rr: "(r = None) = (\<not> isl r0)"
    using ap Delete by (auto split: prod.splits sum.splits)
  from delete_versions[OF r0] show ?thesis
  proof
    assume "s' = s \<and> isl r0"
    then show ?thesis using ok rr by (auto simp: step_ok_def)
  next
    assume "\<exists>ch. ch_items (sys_chunks s) cid = Some ch \<and>
       versions_effect s s' (chunk_library_id ch) (\<not> isl r0 \<and> sys_indexes s (chunk_library_id ch) \<noteq> None)"
    then obtain ch where ch: "ch_items (sys_chunks s) cid = Some ch"
      and e: "versions_effect s s' (chunk_library_id ch) (\<not> isl r0 \<and> sys_indexes s (chunk_library_id ch) \<noteq> None)"
      by blast
    from effect_step[OF ok e] show ?thesis using rr Delete ch
      by (auto simp: step_ok_def live_library_of_def split: if_splits)
  qed
qed

lemma length_run_ops: "length (run_ops G s ops) = Suc (length ops)"
  by (induction ops arbitrary: s) auto

lemma run_ops_steps:
  assumes "versions_ok s0"
  shows "\<forall>n < length ops.
           versions_ok (run_ops G s0 ops ! Suc n) \<and>
           snd (apply_op G (run_ops G s0 ops ! n) (ops ! n)) = run_ops G s0 ops ! Suc n \<and>
           step_ok (run_ops G s0 ops ! n) (ops ! n)
                   (fst (apply_op G (run_ops G s0 ops ! n) (ops ! n)))
                   (run_ops G s0 ops ! Suc n)"
  using assms
proof (induction ops arbitrary: s0)
  case Nil
  then show ?case by simp
next
  case (Cons op ops)
  obtain r s1 where ap: "apply_op G s0 op = (r, s1)" by (cases "apply_op G s0 op")
  from apply_op_step[OF Cons.prems ap] have s1: "versions_ok s1" "step_ok s0 op r s1" by auto
  note IH = Cons.IH[OF s1(1)]
  show ?case
  proof (intro allI impI)
    fix n assume n: "n < length (op # ops)"
    show "versions_ok (run_ops G s0 (op # ops) ! Suc n) \<and>
           snd (apply_op G (run_ops G s0 (op # ops) ! n) ((op # ops) ! n)) = run_ops G s0 (op # ops) ! Suc n \<and>
           step_ok (run_ops G s0 (op # ops) ! n) ((op # ops) ! n)
                   (fst (apply_op G (run_ops G s0 (op # ops) ! n) ((op # ops) ! n)))
                   (run_ops G s0 (op # ops) ! Suc n)"
    proof (cases n)
      case 0
      have "run_ops G s1 ops ! 0 = s1" by (cases ops) auto
      then show ?thesis using 0 s1 ap by simp
    next
      case (Suc m)
      then have "m < length ops" using n by simp
      with IH have "versions_ok (run_ops G s1 ops ! Suc m) \<and>
           snd (apply_op G (run_ops G s1 ops ! m) (ops ! m)) = run_ops G s1 ops ! Suc m \<and>
           step_ok (run_ops G s1 ops ! m) (ops ! m)
                   (fst (apply_op G (run_ops G s1 ops ! m) (ops ! m)))
                   (run_ops G s1 ops ! Suc m)" by blast
      then show ?thesis using Suc ap by simp
    qed
  qed
qed

lemma versions_ok_empty: "versions_ok empty_system"
  by (simp add: versions_ok_def version_of_def vm_get_def vm_setdefault_def empty_system_def Let_def)

lemma versions_ok_build_index:
  assumes "versions_ok s"
  shows "versions_ok (snd (build_index G s l t cs))"
proof -
  have "\<And>s1 l'. sys_versions s1 = sys_versions s \<Longrightarrow>
      index_version (vinfo (sys_versions (sync_index_version s1 l)) l')
        \<le> data_version (vinfo (sys_versions (sync_index_version s1 l)) l')"
    using assms by (simp add: vinfo_sync versions_ok_def version_of_vinfo)
  then show ?thesis using assms
    by (auto simp: build_index_def versions_ok_def version_of_vinfo Let_def split: sum.splits)
qed

lemma versions_ok_example: "versions_ok example_system"
  by (simp add: versions_ok_def version_of_def vm_get_def vm_setdefault_def example_system_def empty_system_def Let_def)

lemma strip_t: "strip ''t'' = ''t''"
  by (simp add: strip_def is_space_def)

lemma example_create:
  "fst (apply_op (\<lambda>_ _. 1) example_system (Create ''L'' ''D'' ''t'' [1, 0, 0, 0] ''c1'' 0)) = None"
  by (simp add: chunk_create_def libraries_get_def documents_get_def validate_embedding_def
      new_chunk_def strip_t chunks_create_def add_chunk_def bf_add_def bf_init_def bump_data_def
      vm_setdefault_def example_system_def empty_system_def split_beta Let_def)

section \<open>Dimension mismatch on chunk creation\<close>

text \<open>
  Claim C7.  Creating a chunk in an existing library, under an existing document, with an
  embedding whose length differs from the library's \<open>embedding_dimension\<close> fails with
  \<open>ValidationError\<close> and returns the state it was given: the chunk repository, the version
  manager (so the library's \<open>data_version\<close>) and everything else are unchanged.
\<close>

theorem chunk_create_dimension_mismatch:
  assumes "libraries_get (sys_libraries s) library_id = Inr lib"
      and "documents_get (sys_documents s) document_id = Inr d"
      and "int (length embedding) \<noteq> lib_embedding_dimension lib"
  shows "chunk_create G s library_id document_id text embedding fresh_id now = (Inl ValidationError, s)"
  using assms by (simp add: chunk_create_def validate_embedding_def)

theorem chunk_create_dimension_mismatch_witness:
  "libraries_get (sys_libraries example_system) ''L'' =
      Inr \<lparr>lib_id = ''L'', lib_name = ''lib'', lib_embedding_dimension = 4, lib_default_index_type = BRUTE_FORCE\<rparr>
   \<and> documents_get (sys_documents example_system) ''D'' = Inr \<lparr>doc_id = ''D'', doc_library_id = ''L'', doc_title = ''doc''\<rparr>
   \<and> chunk_create (\<lambda>_ _. 1) example_system ''L'' ''D'' ''hello'' [1/10, 2/10, 3/10] ''c1'' 0
        = (Inl ValidationError, example_system)"
proof -
  have a: "libraries_get (sys_libraries example_system) ''L'' =
      Inr \<lparr>lib_id = ''L'', lib_name = ''lib'', lib_embedding_dimension = 4, lib_default_index_type = BRUTE_FORCE\<rparr>"
    by (simp add: example_system_def empty_system_def libraries_get_def)
  have b: "documents_get (sys_documents example_system) ''D'' = Inr \<lparr>doc_id = ''D'', doc_library_id = ''L'', doc_title = ''doc''\<rparr>"
    by (simp add: example_system_def empty_system_def documents_get_def)
  show ?thesis using a b chunk_create_dimension_mismatch[OF a b, of "[1/10, 2/10, 3/10]"]
    by simp
qed

section \<open>A failing build and the building flag\<close>

text \<open>
  When the construction of the index fails, \<open>build_index\<close> returns the error and the state
  it was given: the published index, the index type, the versions and the building flag
  are all as before.
\<close>

lemma build_index_failure:
  "vi_build G (create_index t) (map chunk_embedding cs) (map chunk_id cs) = Inl e
     \<Longrightarrow> build_index G s l t cs = (Inl e, s)"
  by (simp add: build_index_def)

lemma norm_m10: "normalize [- 1, 0] = [- 1, 0]" "normalize [0] = [0]"
  by (simp_all add: normalize_def l2_norm_def)

lemma ragged_build_fails:
  "vi_build G (create_index KD_TREE) (map chunk_embedding ragged_chunks) (map chunk_id ragged_chunks) = Inl IndexError"
  by (simp add: ragged_chunks_def mk_chunk_def kd_build_def kd_init_def norm_m10 normalize_unit2 sort_by_axis_def)

text \<open>
  Claim C4 (a failing build surfaces the error, leaves the published index alone and
  clears the building flag).  The first two hold (\<open>build_index_failure\<close>); the flag is not
  cleared.  In a fresh process, \<open>build_index_async\<close> for library \<open>L\<close> with the KD-tree type
  and four chunks of unequal embedding length sets the flag and starts the build; the
  build raises \<open>IndexError\<close> and leaves the state as it was, flag set; every later
  \<open>build_index_async\<close> for \<open>L\<close> returns without starting a build.
\<close>

theorem failed_build_keeps_building_flag:
  "build_index_async empty_system ''L'' KD_TREE ragged_chunks =
      (empty_system\<lparr>sys_building := [''L'' \<mapsto> True]\<rparr>, Some (''L'', KD_TREE, ragged_chunks))
   \<and> run_job G (empty_system\<lparr>sys_building := [''L'' \<mapsto> True]\<rparr>) (''L'', KD_TREE, ragged_chunks) =
      (Inl IndexError, empty_system\<lparr>sys_building := [''L'' \<mapsto> True]\<rparr>)
   \<and> is_building (empty_system\<lparr>sys_building := [''L'' \<mapsto> True]\<rparr>) ''L''
   \<and> build_index_async (empty_system\<lparr>sys_building := [''L'' \<mapsto> True]\<rparr>) ''L'' BRUTE_FORCE [] =
      (empty_system\<lparr>sys_building := [''L'' \<mapsto> True]\<rparr>, None)"
  by (simp add: build_index_async_def run_job_def build_index_failure[OF ragged_build_fails]
      is_building_def empty_system_def)

section \<open>Consistency of the brute-force index\<close>

lemma pos_fold_notin:
  "x \<notin> set ids \<Longrightarrow> fold (\<lambda>(i, x) m. m(x \<mapsto> i)) (enumerate k ids) m x = m x"
  by (induction ids arbitrary: k m) auto

lemma pos_fold_nth:
  "distinct ids \<Longrightarrow> n < length ids \<Longrightarrow>
     fold (\<lambda>(i, x) m. m(x \<mapsto> i)) (enumerate k ids) m (ids ! n) = Some (k + n)"
proof (induction ids arbitrary: k m n)
  case Nil
  then show ?case by simp
next
  case (Cons a ids)
  show ?case
  proof (cases n)
    case 0
    then show ?thesis using Cons.prems pos_fold_notin[of a ids "Suc k" "m(a \<mapsto> k)"]
      by (simp del: fun_upd_apply) simp
  next
    case (Suc j)
    then show ?thesis using Cons.prems Cons.IH[of j "Suc k"] by simp
  qed
qed

lemma pos_of_ids_iff:
  assumes "distinct ids"
  shows "pos_of_ids ids i = Some n \<longleftrightarrow> n < length ids \<and> ids ! n = i"
proof (cases "i \<in> set ids")
  case False
  then show ?thesis by (auto simp: pos_of_ids_def pos_fold_notin)
next
  case True
  then obtain j where j: "j < length ids" "ids ! j = i" by (auto simp: in_set_conv_nth)
  with assms have "pos_of_ids ids i = Some j"
    using pos_fold_nth[of ids j 0 Map.empty] by (simp add: pos_of_ids_def)
  with j assms show ?thesis by (auto simp: nth_eq_iff_index_eq)
qed

lemma bf_inv_init: "bf_inv (bf_init pre)"
  by (simp add: bf_inv_def bf_init_def)

lemma bf_inv_build:
  "length vectors = length ids \<Longrightarrow> distinct ids \<Longrightarrow> bf_inv (bf_build s vectors ids)"
  by (simp add: bf_inv_def bf_build_def pos_of_ids_iff)

lemma bf_inv_dom: "bf_inv s \<Longrightarrow> dom (bf_pos s) = set (bf_ids s)"
  by (auto simp: bf_inv_def in_set_conv_nth dom_def)

lemma bf_inv_add:
  assumes "bf_inv s" "bf_add s v i = Inr s'"
  shows "bf_inv s'"
proof -
  from assms have ni: "i \<notin> set (bf_ids s)" using bf_inv_dom[OF assms(1)]
    by (auto simp: bf_add_def split: if_splits)
  from assms have s': "bf_ids s' = bf_ids s @ [i]" "length (bf_vectors s') = Suc (length (bf_vectors s))"
    "bf_pos s' = (bf_pos s)(i \<mapsto> length (bf_ids s))"
    by (auto simp: bf_add_def Let_def split: if_splits)
  show ?thesis unfolding bf_inv_def s'
    using assms(1) ni by (auto simp: bf_inv_def nth_append less_Suc_eq)
qed

lemma bf_inv_update:
  assumes "bf_inv s" "bf_update s i v = Inr s'"
  shows "bf_inv s'"
  using assms by (auto simp: bf_update_def bf_inv_def Let_def split: option.splits if_splits)

lemma bf_remove_cases:
  assumes inv: "bf_inv s" and r: "bf_remove s i = Inr s'"
  obtains idx where "bf_pos s i = Some idx" "idx < length (bf_ids s)" "bf_ids s ! idx = i"
    "bf_ids s' = (butlast (bf_ids s))[idx := last (bf_ids s)]"
    "bf_vectors s' = (butlast (bf_vectors s))[idx := last (bf_vectors s)]"
    "bf_pos s' = ((bf_pos s)(last (bf_ids s) \<mapsto> idx))(i := None)"
proof -
  from r obtain idx where idx: "bf_pos s i = Some idx"
    by (auto simp: bf_remove_def split: option.splits)
  with inv have lt: "idx < length (bf_ids s)" and at: "bf_ids s ! idx = i"
    and len: "length (bf_vectors s) = length (bf_ids s)"
    by (auto simp: bf_inv_def)
  then have ne: "bf_ids s \<noteq> []" "bf_vectors s \<noteq> []" by auto
  show thesis
  proof (cases "idx = length (bf_ids s) - 1")
    case True
    then have "last (bf_ids s) = i" using at ne by (simp add: last_conv_nth)
    moreover have "(butlast (bf_ids s))[idx := last (bf_ids s)] = butlast (bf_ids s)"
      "(butlast (bf_vectors s))[idx := last (bf_vectors s)] = butlast (bf_vectors s)"
      using True len by (simp_all add: list_update_beyond)
    ultimately show ?thesis using r idx True ne lt at
      by (intro that[of idx]) (auto simp: bf_remove_def Let_def)
  next
    case False
    then have "bf_ids s' = (butlast (bf_ids s))[idx := last (bf_ids s)]"
      "bf_vectors s' = (butlast (bf_vectors s))[idx := last (bf_vectors s)]"
      "bf_pos s' = ((bf_pos s)(last (bf_ids s) \<mapsto> idx))(i := None)"
      using r idx ne lt len
      by (auto simp: bf_remove_def Let_def butlast_list_update last_conv_nth list_update_swap)
    then show ?thesis using idx lt at by (intro that[of idx])
  qed
qed

lemma bf_remove_inv:
  assumes inv: "bf_inv s" and r: "bf_remove s i = Inr s'"
  shows "bf_inv s'"
    and "\<forall>j. j \<noteq> i \<longrightarrow> bf_vector_of s' j = bf_vector_of s j"
    and "bf_vector_of s' i = None"
    and "Suc (length (bf_ids s')) = length (bf_ids s)"
proof -
  from bf_remove_cases[OF inv r] obtain idx where
    idx: "bf_pos s i = Some idx" "idx < length (bf_ids s)" "bf_ids s ! idx = i" and
    ids': "bf_ids s' = (butlast (bf_ids s))[idx := last (bf_ids s)]" and
    vs': "bf_vectors s' = (butlast (bf_vectors s))[idx := last (bf_vectors s)]" and
    pos': "bf_pos s' = ((bf_pos s)(last (bf_ids s) \<mapsto> idx))(i := None)"
    by blast
  define n where "n = length (bf_ids s)"
  from inv have len: "length (bf_vectors s) = n" and dist: "distinct (bf_ids s)"
    and pos: "\<And>j m. bf_pos s j = Some m \<longleftrightarrow> m < n \<and> bf_ids s ! m = j"
    by (auto simp: bf_inv_def n_def)
  have npos: "0 < n" using idx by (auto simp: n_def)
  have lastid: "last (bf_ids s) = bf_ids s ! (n - 1)" using npos by (simp add: last_conv_nth n_def)
  have "bf_vectors s \<noteq> []" using npos len by auto
  then have lastv: "last (bf_vectors s) = bf_vectors s ! (n - 1)" using len by (simp add: last_conv_nth)
  have nth_ids: "\<And>m. m < n - 1 \<Longrightarrow> bf_ids s' ! m = (if m = idx then bf_ids s ! (n - 1) else bf_ids s ! m)"
    by (simp add: ids' lastid nth_butlast n_def)
  have nth_vs: "\<And>m. m < n - 1 \<Longrightarrow> bf_vectors s' ! m = (if m = idx then bf_vectors s ! (n - 1) else bf_vectors s ! m)"
    using len by (simp add: vs' lastv nth_butlast)
  have l': "length (bf_ids s') = n - 1" "length (bf_vectors s') = n - 1"
    using len by (simp_all add: ids' vs' n_def)
  have eq_iff: "\<And>a b. a < n \<Longrightarrow> b < n \<Longrightarrow> bf_ids s ! a = bf_ids s ! b \<longleftrightarrow> a = b"
    using dist by (simp add: nth_eq_iff_index_eq n_def)
  have pos'_iff: "\<And>j m. bf_pos s' j = Some m \<longleftrightarrow> m < n - 1 \<and> bf_ids s' ! m = j"
  proof -
    fix j m
    show "bf_pos s' j = Some m \<longleftrightarrow> m < n - 1 \<and> bf_ids s' ! m = j"
    proof (cases "j = i")
      case True
      have "\<not> (m < n - 1 \<and> bf_ids s' ! m = i)"
      proof
        assume a: "m < n - 1 \<and> bf_ids s' ! m = i"
        then have m: "m < n - 1" and e: "bf_ids s' ! m = i" by auto
        have mn: "m < n" using m by simp
        have in': "idx < n" using idx by (simp add: n_def)
        show False
        proof (cases "m = idx")
          case True
          then have "bf_ids s ! (n - 1) = bf_ids s ! idx" using nth_ids[OF m] e idx by simp
          then have "n - 1 = idx" using eq_iff[of "n - 1" idx] npos in' by simp
          then show False using True m by simp
        next
          case False
          then have "bf_ids s ! m = bf_ids s ! idx" using nth_ids[OF m] e idx by simp
          then show False using eq_iff[of m idx] mn in' False by simp
        qed
      qed
      then show ?thesis using True by (simp add: pos')
    next
      case False
      show ?thesis
      proof (cases "j = bf_ids s ! (n - 1)")
        case True
        then have "idx \<noteq> n - 1" using False idx by auto
        then have "idx < n - 1" using idx by (auto simp: n_def)
        then show ?thesis using True False nth_ids eq_iff[of _ "n - 1"] npos
          by (auto simp: pos' lastid split: if_splits)
      next
        case neq: False
        have "bf_pos s' j = bf_pos s j" using False neq by (simp add: pos' lastid)
        moreover have "bf_pos s j = Some m \<longleftrightarrow> m < n - 1 \<and> bf_ids s' ! m = j"
        proof
          assume "bf_pos s j = Some m"
          then have m: "m < n" "bf_ids s ! m = j" using pos by auto
          then have "m \<noteq> n - 1" "m \<noteq> idx" using neq False idx by auto
          then show "m < n - 1 \<and> bf_ids s' ! m = j" using m nth_ids[of m] by auto
        next
          assume a: "m < n - 1 \<and> bf_ids s' ! m = j"
          then have "m \<noteq> idx" using nth_ids[of m] neq by auto
          then show "bf_pos s j = Some m" using a nth_ids[of m] pos[of j m] by auto
        qed
        ultimately show ?thesis by simp
      qed
    qed
  qed
  have dist': "distinct (bf_ids s')"
    unfolding distinct_conv_nth l'
  proof (intro allI impI)
    fix a b assume "a < n - 1" "b < n - 1" "a \<noteq> b"
    then show "bf_ids s' ! a \<noteq> bf_ids s' ! b"
      using nth_ids[of a] nth_ids[of b] eq_iff[of a b] eq_iff[of "n - 1" b] eq_iff[of a "n - 1"]
      by (auto split: if_splits)
  qed
  show "bf_inv s'"
    unfolding bf_inv_def using l' dist' pos'_iff by simp
  show "\<forall>j. j \<noteq> i \<longrightarrow> bf_vector_of s' j = bf_vector_of s j"
  proof (intro allI impI)
    fix j assume ji: "j \<noteq> i"
    show "bf_vector_of s' j = bf_vector_of s j"
    proof (cases "bf_pos s j")
      case None
      then have "j \<noteq> bf_ids s ! (n - 1)" using pos[of j "n - 1"] npos by auto
      then show ?thesis using None ji by (simp add: bf_vector_of_def pos' lastid)
    next
      case (Some m)
      then have m: "m < n" "bf_ids s ! m = j" using pos by auto
      then have mi: "m \<noteq> idx" using ji idx by auto
      show ?thesis
      proof (cases "m = n - 1")
        case True
        then have "bf_pos s' j = Some idx" using m ji by (simp add: pos' lastid)
        moreover have "idx < n - 1" using idx mi True by (auto simp: n_def)
        ultimately show ?thesis using Some True nth_vs[of idx] by (simp add: bf_vector_of_def)
      next
        case False
        then have "bf_pos s' j = Some m" using m ji Some eq_iff[of m "n - 1"] npos
          by (auto simp: pos' lastid)
        moreover have "m < n - 1" using m False by auto
        ultimately show ?thesis using Some mi nth_vs[of m] by (simp add: bf_vector_of_def)
      qed
    qed
  qed
  show "bf_vector_of s' i = None" by (simp add: bf_vector_of_def pos')
  show "Suc (length (bf_ids s')) = length (bf_ids s)" using l' npos by (simp add: n_def)
qed

lemma bf_remove_error:
  assumes "bf_inv s" "bf_remove s i = Inl e"
  shows "e = KeyError \<and> i \<notin> set (bf_ids s)"
proof (cases "bf_pos s i")
  case None
  then show ?thesis using assms bf_inv_dom[OF assms(1)] by (auto simp: bf_remove_def)
next
  case (Some idx)
  with assms(1) have "idx < length (bf_ids s)" "length (bf_vectors s) = length (bf_ids s)"
    by (auto simp: bf_inv_def)
  then show ?thesis using assms(2) Some
    by (auto simp: bf_remove_def Let_def split: if_splits)
qed

lemma bf_update_error:
  assumes "bf_inv s" "bf_update s i v = Inl e"
  shows "e = KeyError \<and> i \<notin> set (bf_ids s)"
  using assms bf_inv_dom[OF assms(1)]
  by (auto simp: bf_update_def bf_inv_def Let_def split: option.splits if_splits)

lemma bf_inv_step:
  assumes "bf_inv s" "build_ok op" "bf_step s op = Inr s'"
  shows "bf_inv s'"
proof (cases op)
  case (Build vectors ids)
  then show ?thesis using assms by (auto intro: bf_inv_build)
next
  case (Add v i)
  then show ?thesis using assms bf_inv_add[of s v i s'] by simp
next
  case (Remove i)
  then show ?thesis using assms bf_remove_inv(1)[of s i s'] by simp
next
  case (UpdateVec i v)
  then show ?thesis using assms bf_inv_update[of s i v s'] by simp
qed

lemma bf_inv_exec:
  "bf_inv s \<Longrightarrow> list_all build_ok ops \<Longrightarrow> bf_inv (bf_exec s ops)"
proof (induction ops arbitrary: s)
  case Nil
  then show ?case by simp
next
  case (Cons op ops)
  then have "bf_inv (case bf_step s op of Inl e \<Rightarrow> s | Inr s' \<Rightarrow> s')"
    using bf_inv_step[of s op] by (auto split: sum.splits)
  then show ?case using Cons by simp
qed

text \<open>
  Claim C10, as stated, fails: \<^verbatim>\<open>build\<close> stores the two lists it is given without
  comparing them.  After \<open>build([[1]], [a, b])\<close> the id array has two entries and the vector
  array one.
\<close>

theorem bf_build_unequal_counterexample:
  "length (bf_ids (bf_exec (bf_init True) [Build [[1]] [''a'', ''b'']]))
     \<noteq> length (bf_vectors (bf_exec (bf_init True) [Build [[1]] [''a'', ''b'']]))"
  by (simp add: bf_build_def bf_init_def)

text \<open>
  Claim C10, amended.  After any sequence of build, add, remove and update calls on a
  fresh brute-force index in which every build is given as many vectors as ids and no id
  twice: the id array and the vector array have the same length, no id occurs twice, the
  position map is defined exactly on the stored ids and maps each to the one position
  where it stands, \<open>size()\<close> is the number of stored ids, and a successful \<open>remove\<close>
  (swap with the last, pop) takes one id away and leaves every other id with the vector
  it had.
\<close>

theorem brute_force_index_consistent:
  assumes "list_all build_ok ops"
  shows "length (bf_ids (bf_exec (bf_init pre) ops)) = length (bf_vectors (bf_exec (bf_init pre) ops))
    \<and> distinct (bf_ids (bf_exec (bf_init pre) ops))
    \<and> dom (bf_pos (bf_exec (bf_init pre) ops)) = set (bf_ids (bf_exec (bf_init pre) ops))
    \<and> (\<forall>i n. bf_pos (bf_exec (bf_init pre) ops) i = Some n \<longleftrightarrow>
          n < length (bf_ids (bf_exec (bf_init pre) ops)) \<and> bf_ids (bf_exec (bf_init pre) ops) ! n = i)
    \<and> bf_size (bf_exec (bf_init pre) ops) = card (dom (bf_pos (bf_exec (bf_init pre) ops)))
    \<and> (\<forall>i s'. bf_remove (bf_exec (bf_init pre) ops) i = Inr s' \<longrightarrow>
          Suc (bf_size s') = bf_size (bf_exec (bf_init pre) ops) \<and>
          bf_vector_of s' i = None \<and>
          (\<forall>j. j \<noteq> i \<longrightarrow> bf_vector_of s' j = bf_vector_of (bf_exec (bf_init pre) ops) j))"
proof -
  define s where "s = bf_exec (bf_init pre) ops"
  have inv: "bf_inv s" unfolding s_def by (rule bf_inv_exec[OF bf_inv_init assms])
  have d: "dom (bf_pos s) = set (bf_ids s)" by (rule bf_inv_dom[OF inv])
  have c1: "length (bf_ids s) = length (bf_vectors s)" and c2: "distinct (bf_ids s)"
    and c4: "\<forall>i n. bf_pos s i = Some n \<longleftrightarrow> n < length (bf_ids s) \<and> bf_ids s ! n = i"
    using inv unfolding bf_inv_def by blast+
  have c5: "bf_size s = card (dom (bf_pos s))"
    using c2 by (simp add: d bf_size_def distinct_card)
  have c6: "\<forall>i s'. bf_remove s i = Inr s' \<longrightarrow>
          Suc (bf_size s') = bf_size s \<and> bf_vector_of s' i = None \<and>
          (\<forall>j. j \<noteq> i \<longrightarrow> bf_vector_of s' j = bf_vector_of s j)"
    using bf_remove_inv[OF inv] by (simp add: bf_size_def)
  from c1 c2 d c4 c5 c6 show ?thesis unfolding s_def by blast
qed
theorem brute_force_index_consistent_witness:
  "list_all build_ok [Build [[1, 0], [0, 1]] [''a'', ''b''], Remove ''a'']
   \<and> bf_ids (bf_exec (bf_init True) [Build [[1, 0], [0, 1]] [''a'', ''b''], Remove ''a'']) = [''b'']
   \<and> bf_vectors (bf_exec (bf_init True) [Build [[1, 0], [0, 1]] [''a'', ''b''], Remove ''a'']) = [[0, 1]]
   \<and> length (bf_ids (bf_exec (bf_init True) [Build [[1, 0], [0, 1]] [''a'', ''b''], Remove ''a'']))
       = length (bf_vectors (bf_exec (bf_init True) [Build [[1, 0], [0, 1]] [''a'', ''b''], Remove ''a'']))
   \<and> dom (bf_pos (bf_exec (bf_init True) [Build [[1, 0], [0, 1]] [''a'', ''b''], Remove ''a'']))
       = set (bf_ids (bf_exec (bf_init True) [Build [[1, 0], [0, 1]] [''a'', ''b''], Remove ''a'']))"
proof -
  have ok: "list_all build_ok [Build [[1, 0], [0, 1]] [''a'', ''b''], Remove ''a'']" by simp
  have e: "bf_ids (bf_exec (bf_init True) [Build [[1, 0], [0, 1]] [''a'', ''b''], Remove ''a'']) = [''b'']"
     "bf_vectors (bf_exec (bf_init True) [Build [[1, 0], [0, 1]] [''a'', ''b''], Remove ''a'']) = [[0, 1]]"
    by (simp_all add: bf_build_def bf_init_def bf_remove_def pos_of_ids_def normalize_unit2 Let_def)
  show ?thesis
    using ok e brute_force_index_consistent[OF ok, of True] by simp
qed

section \<open>The LSH index answers when it holds data\<close>

lemma lsh_hash_cong: "lsh_planes s = lsh_planes s' \<Longrightarrow> lsh_hash s v = lsh_hash s' v"
  by (simp add: lsh_hash_def)

lemma lsh_inv_init: "lsh_inv (lsh_init n seed)"
  by (simp add: lsh_inv_def lsh_init_def)

lemma bucket_members_stored:
  assumes "lsh_inv s" "lsh_buckets s key = Some b" "i \<in> set b"
  shows "i \<in> fst ` set (lsh_id_to_vec s)"
  using assms unfolding lsh_inv_def by (metis domI dom_map_of_conv_image_fst)

lemma lsh_insert_inv:
  assumes inv: "lsh_inv s" and fresh: "i \<notin> fst ` set (lsh_id_to_vec s)"
    and pl: "lsh_planes s = [] \<longrightarrow> lsh_num_planes s \<le> 0"
  shows "lsh_inv (lsh_insert s (v, i))"
proof -
  define vn where "vn = normalize v"
  define s' where "s' = lsh_insert s (v, i)"
  have s': "lsh_id_to_vec s' = AList.update i vn (lsh_id_to_vec s)"
    "lsh_buckets s' = bucket_append (lsh_buckets s) (lsh_hash s vn) i"
    "lsh_planes s' = lsh_planes s" "lsh_num_planes s' = lsh_num_planes s"
    by (simp_all add: s'_def lsh_insert_def Let_def vn_def lsh_hash_def)
  have h: "\<And>w. lsh_hash s' w = lsh_hash s w" by (simp add: lsh_hash_def s')
  have m: "map_of (lsh_id_to_vec s') = (map_of (lsh_id_to_vec s))(i \<mapsto> vn)"
    by (simp add: s' update_conv')
  have d: "distinct (map fst (lsh_id_to_vec s'))"
    using inv by (simp add: s' distinct_update lsh_inv_def)
  have fresh_b: "\<And>key b. lsh_buckets s key = Some b \<Longrightarrow> i \<notin> set b"
    using bucket_members_stored[OF inv] fresh by blast
  have b: "\<And>key b j. lsh_buckets s' key = Some b \<Longrightarrow>
      distinct b \<and> (\<forall>j \<in> set b. \<exists>w. map_of (lsh_id_to_vec s') j = Some w \<and> lsh_hash s' w = key)"
  proof -
    fix key b assume kb: "lsh_buckets s' key = Some b"
    show "distinct b \<and> (\<forall>j \<in> set b. \<exists>w. map_of (lsh_id_to_vec s') j = Some w \<and> lsh_hash s' w = key)"
    proof (cases "key = lsh_hash s vn")
      case False
      then have "lsh_buckets s key = Some b" using kb by (simp add: s' bucket_append_def)
      then show ?thesis using inv fresh_b[of key b] unfolding lsh_inv_def h m by fastforce
    next
      case True
      show ?thesis
      proof (cases "lsh_buckets s key")
        case None
        then have "b = [i]" using kb True by (simp add: s' bucket_append_def)
        then show ?thesis using True by (simp add: h m)
      next
        case (Some b0)
        then have "b = b0 @ [i]" using kb True by (simp add: s' bucket_append_def)
        then show ?thesis using inv Some fresh_b[of key b0] True unfolding lsh_inv_def h m
          by fastforce
      qed
    qed
  qed
  show ?thesis unfolding s'_def[symmetric] lsh_inv_def
    using d b pl s' by (auto simp: AList.update_nonempty)
qed

lemma lsh_insert_fields:
  "lsh_planes (lsh_insert s vi) = lsh_planes s"
  "lsh_num_planes (lsh_insert s vi) = lsh_num_planes s"
  "fst ` set (lsh_id_to_vec (lsh_insert s vi)) = insert (snd vi) (fst ` set (lsh_id_to_vec s))"
  by (simp_all add: lsh_insert_def Let_def dom_update)

lemma lsh_inv_foldl_insert:
  assumes "lsh_inv s" "lsh_planes s = [] \<longrightarrow> lsh_num_planes s \<le> 0"
    "distinct (map snd xs)" "snd ` set xs \<inter> fst ` set (lsh_id_to_vec s) = {}"
  shows "lsh_inv (foldl lsh_insert s xs)"
  using assms
proof (induction xs arbitrary: s)
  case Nil
  then show ?case by simp
next
  case (Cons x xs)
  obtain v i where x: "x = (v, i)" by (cases x)
  have "lsh_inv (lsh_insert s x)"
    using Cons.prems lsh_insert_inv[of s i v] by (auto simp: x)
  moreover have "snd ` set xs \<inter> fst ` set (lsh_id_to_vec (lsh_insert s x)) = {}"
    using Cons.prems by (auto simp: lsh_insert_fields)
  ultimately show ?case using Cons.prems Cons.IH[of "lsh_insert s x"]
    by (simp add: lsh_insert_fields)
qed

lemma lsh_inv_build:
  assumes "distinct ids"
  shows "lsh_inv (lsh_build G s vectors ids)"
proof (cases "vectors = []")
  case True
  then show ?thesis by (simp add: lsh_build_def lsh_inv_def)
next
  case False
  define s0 where "s0 = init_planes G (s\<lparr>lsh_buckets := Map.empty, lsh_id_to_vec := []\<rparr>) (length (hd vectors))"
  have f: "lsh_id_to_vec s0 = []" "lsh_buckets s0 = Map.empty"
    "lsh_planes s0 = [] \<longrightarrow> lsh_num_planes s0 \<le> 0"
    by (auto simp: s0_def init_planes_def)
  then have "lsh_inv s0" by (simp add: lsh_inv_def)
  moreover have "distinct (map snd (zip vectors ids))"
    using assms by (simp add: map_snd_zip_take distinct_take)
  ultimately have "lsh_inv (foldl lsh_insert s0 (zip vectors ids))"
    using f by (intro lsh_inv_foldl_insert) auto
  then show ?thesis using False by (simp add: lsh_build_def s0_def Let_def)
qed

lemma lsh_add_as_insert:
  assumes inv: "lsh_inv s" and a: "lsh_add G s v i = Inr s'"
  shows "\<exists>s0. lsh_inv s0 \<and> lsh_id_to_vec s0 = lsh_id_to_vec s
      \<and> (lsh_planes s0 = [] \<longrightarrow> lsh_num_planes s0 \<le> 0) \<and> s' = lsh_insert s0 (v, i)"
proof (cases "lsh_planes s = []")
  case False
  then have "s' = lsh_insert s (v, i)"
    using a by (auto simp: lsh_add_def lsh_insert_def Let_def split: if_splits)
  then show ?thesis using inv False by blast
next
  case True
  define s0 where "s0 = init_planes G s (length (normalize v))"
  have e: "s' = lsh_insert s0 (v, i)"
    using a True by (auto simp: lsh_add_def lsh_insert_def Let_def s0_def init_planes_def lsh_hash_def
        split: if_splits)
  have p: "lsh_planes s0 = [] \<longrightarrow> lsh_num_planes s0 \<le> 0"
    by (auto simp: s0_def init_planes_def)
  have "lsh_inv s0"
  proof (cases "lsh_num_planes s \<le> 0")
    case le: True
    then have "s0 = s" using True by (simp add: s0_def init_planes_def)
    then show ?thesis using inv by simp
  next
    case False
    with inv True have emp: "lsh_id_to_vec s = []" by (auto simp: lsh_inv_def)
    have "\<And>key b. lsh_buckets s key = Some b \<Longrightarrow> b = []"
      using bucket_members_stored[OF inv] emp by fastforce
    then have "\<And>key b. lsh_buckets s0 key = Some b \<Longrightarrow> b = []"
      by (simp add: s0_def init_planes_def)
    moreover have "lsh_id_to_vec s0 = []" using emp by (simp add: s0_def init_planes_def)
    ultimately show ?thesis unfolding lsh_inv_def by fastforce
  qed
  moreover have "lsh_id_to_vec s0 = lsh_id_to_vec s" by (simp add: s0_def init_planes_def)
  ultimately show ?thesis using e p by blast
qed

lemma lsh_inv_add:
  assumes inv: "lsh_inv s" and a: "lsh_add G s v i = Inr s'"
  shows "lsh_inv s'"
proof -
  from lsh_add_as_insert[OF inv a] obtain s0 where s0: "lsh_inv s0" "lsh_id_to_vec s0 = lsh_id_to_vec s"
    "lsh_planes s0 = [] \<longrightarrow> lsh_num_planes s0 \<le> 0" "s' = lsh_insert s0 (v, i)" by blast
  have "i \<notin> fst ` set (lsh_id_to_vec s)" using a by (auto simp: lsh_add_def split: if_splits)
  then show ?thesis using s0 lsh_insert_inv[of s0 i v] by simp
qed

lemma lsh_inv_remove:
  assumes inv: "lsh_inv s" and r: "lsh_remove s i = Inr s'"
  shows "lsh_inv s'"
proof -
  from r obtain vn where vn: "map_of (lsh_id_to_vec s) i = Some vn"
    by (auto simp: lsh_remove_def split: option.splits)
  define key where "key = lsh_hash s vn"
  define bucket where "bucket = (case lsh_buckets s key of None \<Rightarrow> [] | Some l \<Rightarrow> l)"
  have only_key: "\<And>k b. lsh_buckets s k = Some b \<Longrightarrow> i \<in> set b \<Longrightarrow> k = key"
    using inv vn unfolding lsh_inv_def key_def by fastforce
  have f: "lsh_id_to_vec s' = AList.delete i (lsh_id_to_vec s)" "lsh_planes s' = lsh_planes s"
    "lsh_num_planes s' = lsh_num_planes s"
    "lsh_buckets s' = (if i \<in> set bucket
        then (if remove1 i bucket = [] then (lsh_buckets s)(key := None)
              else (lsh_buckets s)(key \<mapsto> remove1 i bucket))
        else lsh_buckets s)"
    using r vn by (auto simp: lsh_remove_def Let_def key_def bucket_def lsh_hash_def split: if_splits)
  have h: "\<And>w. lsh_hash s' w = lsh_hash s w" by (simp add: lsh_hash_def f)
  have m: "\<And>j. j \<noteq> i \<Longrightarrow> map_of (lsh_id_to_vec s') j = map_of (lsh_id_to_vec s) j"
    by (simp add: f delete_conv')
  have d: "distinct (map fst (lsh_id_to_vec s'))"
    using inv by (simp add: f distinct_delete lsh_inv_def)
  have b: "\<And>k b. lsh_buckets s' k = Some b \<Longrightarrow>
      distinct b \<and> (\<forall>j \<in> set b. \<exists>w. map_of (lsh_id_to_vec s') j = Some w \<and> lsh_hash s' w = k)"
  proof -
    fix k b assume kb: "lsh_buckets s' k = Some b"
    have "\<exists>b0. lsh_buckets s k = Some b0 \<and> distinct b \<and> set b \<subseteq> set b0 \<and> i \<notin> set b"
    proof (cases "k = key")
      case False
      then have e: "lsh_buckets s k = Some b" using kb by (auto simp: f split: if_splits)
      moreover have "i \<notin> set b" using only_key[OF e] False by blast
      moreover have "distinct b" using inv e unfolding lsh_inv_def by blast
      ultimately show ?thesis by blast
    next
      case True
      show ?thesis
      proof (cases "lsh_buckets s key")
        case None
        then have "bucket = []" by (simp add: bucket_def)
        then show ?thesis using kb True None by (simp add: f)
      next
        case (Some b0)
        then have bk: "bucket = b0" by (simp add: bucket_def)
        have db0: "distinct b0" using inv Some unfolding lsh_inv_def by blast
        show ?thesis
        proof (cases "i \<in> set b0")
          case False
          then have "b = b0" using kb True Some bk by (simp add: f)
          then show ?thesis using Some True db0 False by simp
        next
          case in_b: True
          then have "b = remove1 i b0" using kb True bk by (auto simp: f split: if_splits)
          then show ?thesis using Some True db0 by (auto simp: set_remove1_eq)
        qed
      qed
    qed
    then obtain b0 where b0: "lsh_buckets s k = Some b0" "distinct b" "set b \<subseteq> set b0" "i \<notin> set b"
      by blast
    have "\<forall>j \<in> set b. \<exists>w. map_of (lsh_id_to_vec s') j = Some w \<and> lsh_hash s' w = k"
    proof
      fix j assume j: "j \<in> set b"
      then have ji: "j \<noteq> i" "j \<in> set b0" using b0 by auto
      then obtain w where "map_of (lsh_id_to_vec s) j = Some w" "lsh_hash s w = k"
        using inv b0(1) unfolding lsh_inv_def by blast
      then show "\<exists>w. map_of (lsh_id_to_vec s') j = Some w \<and> lsh_hash s' w = k"
        using m[OF ji(1)] h by auto
    qed
    then show "distinct b \<and> (\<forall>j \<in> set b. \<exists>w. map_of (lsh_id_to_vec s') j = Some w \<and> lsh_hash s' w = k)"
      using b0 by blast
  qed
  have p: "lsh_planes s' = [] \<longrightarrow> lsh_id_to_vec s' = [] \<or> lsh_num_planes s' \<le> 0"
    using inv vn unfolding lsh_inv_def f by auto
  show ?thesis unfolding lsh_inv_def using d b p by blast
qed

lemma lsh_inv_update:
  assumes inv: "lsh_inv s" and u: "lsh_update G s i v = Inr s'"
  shows "lsh_inv s'"
proof -
  from u obtain s1 where "lsh_remove s i = Inr s1" "lsh_add G s1 v i = Inr s'"
    by (auto simp: lsh_update_def split: sum.splits)
  then show ?thesis using inv lsh_inv_remove lsh_inv_add by blast
qed

lemma lsh_inv_exec:
  "lsh_inv s \<Longrightarrow> list_all distinct_ids ops \<Longrightarrow> lsh_inv (lsh_exec G s ops)"
proof (induction ops arbitrary: s)
  case Nil
  then show ?case by simp
next
  case (Cons op ops)
  have "lsh_inv (case lsh_step G s op of Inl e \<Rightarrow> s | Inr s' \<Rightarrow> s')"
  proof (cases op)
    case (Build vectors ids)
    then show ?thesis using Cons.prems by (simp add: lsh_inv_build)
  next
    case (Add v i)
    then show ?thesis using Cons.prems lsh_inv_add[of s G v i] by (auto split: sum.splits)
  next
    case (Remove i)
    then show ?thesis using Cons.prems lsh_inv_remove[of s i] by (auto split: sum.splits)
  next
    case (UpdateVec i v)
    then show ?thesis using Cons.prems lsh_inv_update[of s G i v] by (auto split: sum.splits)
  qed
  then show ?case using Cons by simp
qed

lemma score_candidates_stored:
  assumes "set cs \<subseteq> fst ` set d"
  shows "\<exists>pairs. score_candidates d q cs = Inr pairs \<and> map fst pairs = cs"
  using assms
proof (induction cs)
  case Nil
  then show ?case by simp
next
  case (Cons c cs)
  then obtain v where "map_of d c = Some v"
    by (metis domD dom_map_of_conv_image_fst list.set_intros(1) subsetD)
  then show ?case using Cons by auto
qed

lemma score_candidates_all:
  assumes "distinct (map fst d)" "set xs \<subseteq> set d"
  shows "score_candidates d q (map fst xs) = Inr (map (\<lambda>(i, v). (i, cosine_similarity q v)) xs)"
  using assms(2)
proof (induction xs)
  case Nil
  then show ?case by simp
next
  case (Cons x xs)
  obtain i v where x: "x = (i, v)" by (cases x)
  then have "map_of d i = Some v" using assms(1) Cons.prems by simp
  then show ?case using Cons x by simp
qed

lemma sort_desc_nonempty: "xs \<noteq> [] \<Longrightarrow> sort_desc f xs \<noteq> []"
  by (metis length_0_conv length_sort sort_desc_def)

lemma lsh_search_inv:
  assumes inv: "lsh_inv s" and ne: "lsh_id_to_vec s \<noteq> []" and k: "1 \<le> k"
  shows "\<exists>res. lsh_search s q k = Inr res \<and> res \<noteq> [] \<and>
     ((lsh_planes s = [] \<or> lsh_buckets s (lsh_hash s (normalize q)) = None
        \<or> lsh_buckets s (lsh_hash s (normalize q)) = Some []) \<longrightarrow>
      res = take (nat k) (sort_desc snd
              (map (\<lambda>(i, v). (i, cosine_similarity (normalize q) v)) (lsh_id_to_vec s))))"
proof -
  define qn where "qn = normalize q"
  define candidates where "candidates = (if lsh_planes s \<noteq> []
       then (case lsh_buckets s (lsh_hash s qn) of None \<Rightarrow> [] | Some l \<Rightarrow> l) else [])"
  define candidates' where "candidates' = (if candidates = [] then map fst (lsh_id_to_vec s) else candidates)"
  have s: "lsh_search s q k = (case score_candidates (lsh_id_to_vec s) qn candidates' of
                 Inl e \<Rightarrow> Inl e
               | Inr pairs \<Rightarrow> Inr (take (nat k) (sort_desc snd pairs)))"
    using ne k by (simp add: lsh_search_def Let_def qn_def candidates_def candidates'_def)
  have ne': "candidates' \<noteq> []" using ne by (simp add: candidates'_def)
  have sub: "set candidates' \<subseteq> fst ` set (lsh_id_to_vec s)"
  proof (cases "candidates = []")
    case True
    then show ?thesis by (simp add: candidates'_def)
  next
    case False
    then obtain b where "lsh_buckets s (lsh_hash s qn) = Some b" "candidates = b"
      by (auto simp: candidates_def split: if_splits option.splits)
    then show ?thesis using bucket_members_stored[OF inv] False by (auto simp: candidates'_def)
  qed
  from score_candidates_stored[OF sub] obtain pairs where
    p: "score_candidates (lsh_id_to_vec s) qn candidates' = Inr pairs" "map fst pairs = candidates'"
    by blast
  then have pne: "pairs \<noteq> []" using ne' by auto
  have r: "lsh_search s q k = Inr (take (nat k) (sort_desc snd pairs))" by (simp add: s p)
  have "take (nat k) (sort_desc snd pairs) \<noteq> []"
    using sort_desc_nonempty[OF pne] k by (cases "sort_desc snd pairs") (auto simp: take_Cons')
  moreover have "(lsh_planes s = [] \<or> lsh_buckets s (lsh_hash s qn) = None
        \<or> lsh_buckets s (lsh_hash s qn) = Some []) \<longrightarrow>
      pairs = map (\<lambda>(i, v). (i, cosine_similarity qn v)) (lsh_id_to_vec s)"
  proof
    assume "lsh_planes s = [] \<or> lsh_buckets s (lsh_hash s qn) = None
        \<or> lsh_buckets s (lsh_hash s qn) = Some []"
    then have "candidates = []" by (auto simp: candidates_def)
    then have "candidates' = map fst (lsh_id_to_vec s)" by (simp add: candidates'_def)
    then show "pairs = map (\<lambda>(i, v). (i, cosine_similarity qn v)) (lsh_id_to_vec s)"
      using p(1) score_candidates_all[of "lsh_id_to_vec s" "lsh_id_to_vec s" qn] inv
      by (simp add: lsh_inv_def)
  qed
  ultimately show ?thesis using r unfolding qn_def by blast
qed

lemma normalize_one: "normalize [1] = [1]" "normalize [- 1] = [- 1]"
  by (simp_all add: normalize_def l2_norm_def)

text \<open>
  Claim C5, as stated, fails for a state the index can be brought into: \<^verbatim>\<open>build\<close> accepts
  an id twice and files it under the bucket of each of its vectors, \<^verbatim>\<open>remove\<close> then takes
  it out of one bucket only.  With one plane, after \<open>build([[1], [-1], [-1]], [a, a, b])\<close>
  and \<open>remove(a)\<close> the index stores \<open>b\<close>, the bucket of the query \<open>[1]\<close> still lists \<open>a\<close>, and
  \<open>search([1], 1)\<close> raises \<^verbatim>\<open>KeyError\<close> where it should return a pair.
\<close>

theorem lsh_stale_bucket_counterexample:
  "lsh_id_to_vec (lsh_exec (\<lambda>_ _. 1) (lsh_init 1 42)
       [Build [[1], [- 1], [- 1]] [''a'', ''a'', ''b''], Remove ''a'']) = [(''b'', [- 1])]
   \<and> lsh_search (lsh_exec (\<lambda>_ _. 1) (lsh_init 1 42)
       [Build [[1], [- 1], [- 1]] [''a'', ''a'', ''b''], Remove ''a'']) [1] 1 = Inl KeyError"
  by (simp add: lsh_build_def lsh_init_def init_planes_def lsh_insert_def lsh_hash_def dot_def
      bucket_append_def lsh_remove_def lsh_search_def normalize_one Let_def)

text \<open>
  Claim C5, amended.  Take an LSH index after any sequence of build, add, remove and
  update calls in which no build names an id twice.  If it stores at least one vector and
  \<open>k \<ge> 1\<close>, then \<open>search\<close> returns normally with at least one (id, score) pair; and when the
  query's bucket holds no candidates (there are no planes, or the bucket is missing or
  empty), the result is the first \<open>k\<close> of all stored ids ranked by descending cosine
  similarity to the normalized query.
\<close>

theorem lsh_search_nonempty:
  assumes "list_all distinct_ids ops"
    and "lsh_id_to_vec (lsh_exec G (lsh_init n seed) ops) \<noteq> []"
    and "1 \<le> k"
  shows "\<exists>res. lsh_search (lsh_exec G (lsh_init n seed) ops) q k = Inr res \<and> res \<noteq> [] \<and>
     ((lsh_planes (lsh_exec G (lsh_init n seed) ops) = []
        \<or> lsh_buckets (lsh_exec G (lsh_init n seed) ops)
             (lsh_hash (lsh_exec G (lsh_init n seed) ops) (normalize q)) = None
        \<or> lsh_buckets (lsh_exec G (lsh_init n seed) ops)
             (lsh_hash (lsh_exec G (lsh_init n seed) ops) (normalize q)) = Some []) \<longrightarrow>
      res = take (nat k) (sort_desc snd
              (map (\<lambda>(i, v). (i, cosine_similarity (normalize q) v))
                   (lsh_id_to_vec (lsh_exec G (lsh_init n seed) ops)))))"
  by (rule lsh_search_inv[OF lsh_inv_exec[OF lsh_inv_init assms(1)] assms(2) assms(3)])

theorem lsh_search_nonempty_witness:
  "list_all distinct_ids [Build [[1, 0], [0, 1]] [''a'', ''b'']]
   \<and> lsh_id_to_vec (lsh_exec (\<lambda>_ _. 1) (lsh_init 1 42) [Build [[1, 0], [0, 1]] [''a'', ''b'']]) \<noteq> []
   \<and> (1::int) \<le> 1
   \<and> (\<exists>res. lsh_search (lsh_exec (\<lambda>_ _. 1) (lsh_init 1 42) [Build [[1, 0], [0, 1]] [''a'', ''b'']])
              [1, 0] 1 = Inr res \<and> res \<noteq> [])"
proof -
  have a: "list_all distinct_ids [Build [[1, 0], [0, 1]] [''a'', ''b'']]" by simp
  have b: "lsh_id_to_vec (lsh_exec (\<lambda>_ _. 1) (lsh_init 1 42) [Build [[1, 0], [0, 1]] [''a'', ''b'']]) \<noteq> []"
    by (simp add: lsh_build_def lsh_init_def init_planes_def lsh_insert_def Let_def)
  have c: "(1::int) \<le> 1" by simp
  from lsh_search_nonempty[OF a b c, of "[1, 0]"] show ?thesis using a b by blast
qed

section \<open>Mutual exclusion and writer preference of the reader-writer lock\<close>

lemma in_state_upd:
  "in_state (s\<lparr>lock := l, threads := (threads s)(t := c)\<rparr>) c' =
     (if c = c' then insert t (in_state s c') else in_state s c' - {t})"
  by (auto simp: in_state_def)

lemma lock_inv_init: "lock_inv lock_system_init"
  by (simp add: lock_inv_def lock_system_init_def rwlock_init_def in_state_def)

lemma lock_inv_step:
  assumes "lock_inv s" "lock_step s t a s'"
  shows "lock_inv s'"
  using assms(2,1)
proof (cases rule: lock_step.cases)
  case (acquire_read_step l')
  then have s': "s' = s\<lparr>lock := l', threads := (threads s)(t := Reading)\<rparr>" by simp
  note acquire_read_step
  then have t: "t \<notin> in_state s Reading" "t \<notin> in_state s WaitingToWrite" "t \<notin> in_state s Writing"
    by (auto simp: in_state_def)
  from acquire_read_step have l': "l' = (lock s)\<lparr>readers := readers (lock s) + 1\<rparr>"
    "\<not> writer_active (lock s)"
    by (auto simp: acquire_read_def split: if_splits)
  show ?thesis using assms(1) t l' unfolding s' lock_inv_def in_state_upd
    by auto
next
  case release_read_step
  then have s': "s' = s\<lparr>lock := release_read (lock s), threads := (threads s)(t := Outside)\<rparr>" by simp
  note release_read_step
  then have t: "t \<in> in_state s Reading" "t \<notin> in_state s WaitingToWrite" "t \<notin> in_state s Writing"
    by (auto simp: in_state_def)
  then have "card (in_state s Reading) > 0" using assms(1) by (auto simp: lock_inv_def card_gt_0_iff)
  then show ?thesis using assms(1) t unfolding s' lock_inv_def in_state_upd
    by (auto simp: release_read_def)
next
  case acquire_write_begin_step
  then have s': "s' = s\<lparr>lock := acquire_write_begin (lock s), threads := (threads s)(t := WaitingToWrite)\<rparr>" by simp
  note acquire_write_begin_step
  then have t: "t \<notin> in_state s Reading" "t \<notin> in_state s WaitingToWrite" "t \<notin> in_state s Writing"
    by (auto simp: in_state_def)
  show ?thesis using assms(1) t unfolding s' lock_inv_def in_state_upd
    by (auto simp: acquire_write_begin_def)
next
  case (acquire_write_enter_step l')
  then have s': "s' = s\<lparr>lock := l', threads := (threads s)(t := Writing)\<rparr>" by simp
  note acquire_write_enter_step
  then have t: "t \<notin> in_state s Reading" "t \<in> in_state s WaitingToWrite" "t \<notin> in_state s Writing"
    by (auto simp: in_state_def)
  from acquire_write_enter_step have l': "l' = (lock s)\<lparr>writer_active := True,
      writers_waiting := writers_waiting (lock s) - 1\<rparr>" "\<not> writer_active (lock s)" "readers (lock s) \<le> 0"
    by (auto simp: acquire_write_enter_def split: if_splits)
  have "card (in_state s WaitingToWrite) > 0" using assms(1) t by (auto simp: lock_inv_def card_gt_0_iff)
  moreover have "in_state s Reading = {}" using assms(1) l' by (auto simp: lock_inv_def)
  moreover have "in_state s Writing = {}" using assms(1) l' by (auto simp: lock_inv_def)
  ultimately show ?thesis using assms(1) t l' unfolding s' lock_inv_def in_state_upd
    by auto
next
  case acquire_write_abort_step
  then have s': "s' = s\<lparr>lock := acquire_write_abort (lock s), threads := (threads s)(t := Outside)\<rparr>" by simp
  note acquire_write_abort_step
  then have t: "t \<notin> in_state s Reading" "t \<in> in_state s WaitingToWrite" "t \<notin> in_state s Writing"
    by (auto simp: in_state_def)
  have "card (in_state s WaitingToWrite) > 0" using assms(1) t by (auto simp: lock_inv_def card_gt_0_iff)
  then show ?thesis using assms(1) t unfolding s' lock_inv_def in_state_upd
    by (auto simp: acquire_write_abort_def)
next
  case release_write_step
  then have s': "s' = s\<lparr>lock := release_write (lock s), threads := (threads s)(t := Outside)\<rparr>" by simp
  note release_write_step
  then have t: "t \<notin> in_state s Reading" "t \<notin> in_state s WaitingToWrite" "t \<in> in_state s Writing"
    by (auto simp: in_state_def)
  then have "in_state s Writing = {t}" using assms(1) by (auto simp: lock_inv_def)
  then show ?thesis using assms(1) t unfolding s' lock_inv_def in_state_upd
    by (auto simp: release_write_def)
qed

lemma lock_inv_reachable: "lock_reachable s \<Longrightarrow> lock_inv s"
  by (induction rule: lock_reachable.induct) (auto intro: lock_inv_init lock_inv_step)

text \<open>
  Claim C9.  In every state the threads can reach through the steps of the lock: at most
  one thread holds the lock for writing; while a thread holds it for writing no thread
  holds it for reading; and \<^verbatim>\<open>acquire_read\<close> admits a thread only in a state where no
  thread is waiting to write and none is writing.
\<close>

theorem rwlock_exclusive_writer_preferring:
  assumes "lock_reachable s"
  shows "(\<forall>t u. threads s t = Writing \<and> threads s u = Writing \<longrightarrow> t = u)
       \<and> (\<forall>t u. threads s t = Writing \<longrightarrow> threads s u \<noteq> Reading)
       \<and> (\<forall>t s'. lock_step s t AcquireRead s' \<longrightarrow>
             (\<forall>u. threads s u \<noteq> WaitingToWrite \<and> threads s u \<noteq> Writing))"
proof -
  have inv: "lock_inv s" by (rule lock_inv_reachable[OF assms])
  have a: "\<forall>t u. threads s t = Writing \<and> threads s u = Writing \<longrightarrow> t = u"
    using inv by (auto simp: lock_inv_def in_state_def)
  have b: "\<forall>t u. threads s t = Writing \<longrightarrow> threads s u \<noteq> Reading"
    using inv by (auto simp: lock_inv_def in_state_def)
  have c: "\<forall>t s'. lock_step s t AcquireRead s' \<longrightarrow>
             (\<forall>u. threads s u \<noteq> WaitingToWrite \<and> threads s u \<noteq> Writing)"
  proof (intro allI impI)
    fix t s' u assume "lock_step s t AcquireRead s'"
    then have "acquire_read (lock s) \<noteq> None" by (cases rule: lock_step.cases) auto
    then have g: "\<not> writer_active (lock s)" "writers_waiting (lock s) \<le> 0"
      by (auto simp: acquire_read_def split: if_splits)
    from g(2) inv have "in_state s WaitingToWrite = {}" by (auto simp: lock_inv_def)
    moreover from g(1) inv have "in_state s Writing = {}" by (auto simp: lock_inv_def)
    ultimately show "threads s u \<noteq> WaitingToWrite \<and> threads s u \<noteq> Writing"
      by (auto simp: in_state_def)
  qed
  from a b c show ?thesis by blast
qed

lemma writer_reachable:
  "lock_reachable \<lparr>lock = \<lparr>readers = 0, writers_waiting = 0, writer_active = True\<rparr>,
                   threads = (\<lambda>_. Outside)(0 := Writing)\<rparr>"
proof -
  define s1 where "s1 = lock_system_init\<lparr>lock := acquire_write_begin (lock lock_system_init),
         threads := (threads lock_system_init)(0 := WaitingToWrite)\<rparr>"
  define l2 where "l2 = \<lparr>readers = 0, writers_waiting = 0, writer_active = True\<rparr>"
  have "lock_step lock_system_init 0 AcquireWriteBegin s1"
    unfolding s1_def by (rule acquire_write_begin_step) (simp add: lock_system_init_def)
  then have r1: "lock_reachable s1"
    by (rule reachable_step[OF reachable_init])
  have "threads s1 0 = WaitingToWrite" by (simp add: s1_def)
  moreover have "acquire_write_enter (lock s1) = Some l2"
    by (simp add: s1_def l2_def acquire_write_enter_def acquire_write_begin_def
        lock_system_init_def rwlock_init_def)
  ultimately have "lock_step s1 0 AcquireWriteEnter (s1\<lparr>lock := l2, threads := (threads s1)(0 := Writing)\<rparr>)"
    by (rule acquire_write_enter_step)
  then have "lock_reachable (s1\<lparr>lock := l2, threads := (threads s1)(0 := Writing)\<rparr>)"
    by (rule reachable_step[OF r1])
  moreover have "s1\<lparr>lock := l2, threads := (threads s1)(0 := Writing)\<rparr> =
     \<lparr>lock = \<lparr>readers = 0, writers_waiting = 0, writer_active = True\<rparr>,
      threads = (\<lambda>_. Outside)(0 := Writing)\<rparr>"
    by (simp add: s1_def l2_def lock_system_init_def)
  ultimately show ?thesis by simp
qed

theorem rwlock_exclusive_writer_preferring_witness:
  "lock_reachable \<lparr>lock = \<lparr>readers = 0, writers_waiting = 0, writer_active = True\<rparr>,
                   threads = (\<lambda>_. Outside)(0 := Writing)\<rparr>
   \<and> threads \<lparr>lock = \<lparr>readers = 0, writers_waiting = 0, writer_active = True\<rparr>,
                   threads = (\<lambda>_. Outside)(0 := Writing)\<rparr> 0 = Writing
   \<and> (\<forall>u. threads \<lparr>lock = \<lparr>readers = 0, writers_waiting = 0, writer_active = True\<rparr>,
                   threads = (\<lambda>_. Outside)(0 := Writing)\<rparr> u \<noteq> Reading)"
proof -
  define s2 where "s2 = \<lparr>lock = \<lparr>readers = 0, writers_waiting = 0, writer_active = True\<rparr>,
                   threads = (\<lambda>_. Outside)(0 := Writing)\<rparr>"
  have r: "lock_reachable s2" unfolding s2_def by (rule writer_reachable)
  have w: "threads s2 0 = Writing" by (simp add: s2_def)
  from rwlock_exclusive_writer_preferring[OF r]
  have "\<forall>t u. threads s2 t = Writing \<longrightarrow> threads s2 u \<noteq> Reading" by blast
  with w have "\<forall>u. threads s2 u \<noteq> Reading" by blast
  with r w show ?thesis unfolding s2_def by blast
qed

section \<open>Cascading deletion of a library\<close>

lemma chunks_without_wf: "chunk_repo_wf r \<Longrightarrow> chunk_repo_wf (chunks_without r ids)"
  unfolding chunk_repo_wf_def chunks_without_def by (simp; blast)

lemma documents_without_wf: "document_repo_wf r \<Longrightarrow> document_repo_wf (documents_without r ids)"
  unfolding document_repo_wf_def documents_without_def by (simp; blast)

lemma chunks_without_twice: "chunks_without (chunks_without r A) B = chunks_without r (A \<union> B)"
  by (auto simp: chunks_without_def fun_eq_iff intro!: filter_cong)

lemma documents_without_twice: "documents_without (documents_without r A) B = documents_without r (A \<union> B)"
  by (auto simp: documents_without_def fun_eq_iff intro!: filter_cong)

lemma removeAll_as_filter: "removeAll i xs = filter (\<lambda>j. j \<noteq> i) xs"
  by (induction xs) auto

lemma filter_absent: "i \<notin> set xs \<Longrightarrow> filter (\<lambda>j. j \<noteq> i) xs = xs"
  by (induction xs) auto

lemma chunks_delete_wf:
  assumes wf: "chunk_repo_wf r" and c: "ch_items r i = Some c"
  shows "chunks_delete r i = Inr (chunks_without r {i})"
proof -
  have l: "\<And>l. (if l = chunk_library_id c then removeAll i (ch_by_library r l) else ch_by_library r l)
      = filter (\<lambda>j. j \<noteq> i) (ch_by_library r l)"
    using wf c unfolding chunk_repo_wf_def by (auto simp: removeAll_as_filter filter_absent)
  have d: "\<And>d. (if d = chunk_document_id c then removeAll i (ch_by_document r d) else ch_by_document r d)
      = filter (\<lambda>j. j \<noteq> i) (ch_by_document r d)"
    using wf c unfolding chunk_repo_wf_def by (auto simp: removeAll_as_filter filter_absent)
  have "(ch_by_library r)(chunk_library_id c := set_discard i (ch_by_library r (chunk_library_id c)))
      = (\<lambda>l. filter (\<lambda>j. j \<noteq> i) (ch_by_library r l))"
    by (rule ext) (simp add: set_discard_def l[symmetric])
  moreover have "(ch_by_document r)(chunk_document_id c := set_discard i (ch_by_document r (chunk_document_id c)))
      = (\<lambda>d. filter (\<lambda>j. j \<noteq> i) (ch_by_document r d))"
    by (rule ext) (simp add: set_discard_def d[symmetric])
  moreover have "(ch_items r)(i := None) = (\<lambda>j. if j \<in> {i} then None else ch_items r j)"
    by (auto simp: fun_eq_iff)
  ultimately show ?thesis using c by (simp add: chunks_delete_def chunks_without_def)
qed

lemma documents_delete_wf:
  assumes wf: "document_repo_wf r" and c: "doc_items r i = Some d"
  shows "documents_delete r i = Inr (documents_without r {i})"
proof -
  have l: "\<And>l. (if l = doc_library_id d then removeAll i (doc_by_library r l) else doc_by_library r l)
      = filter (\<lambda>j. j \<noteq> i) (doc_by_library r l)"
    using wf c unfolding document_repo_wf_def by (auto simp: removeAll_as_filter filter_absent)
  have "(doc_by_library r)(doc_library_id d := set_discard i (doc_by_library r (doc_library_id d)))
      = (\<lambda>l. filter (\<lambda>j. j \<noteq> i) (doc_by_library r l))"
    by (rule ext) (simp add: set_discard_def l[symmetric])
  moreover have "(doc_items r)(i := None) = (\<lambda>j. if j \<in> {i} then None else doc_items r j)"
    by (auto simp: fun_eq_iff)
  ultimately show ?thesis using c by (simp add: documents_delete_def documents_without_def)
qed

lemma chunks_without_empty: "chunks_without r {} = r"
  by (simp add: chunks_without_def)

lemma delete_chunks_wf:
  assumes "chunk_repo_wf r" "distinct (map chunk_id chs)"
    "\<forall>c \<in> set chs. ch_items r (chunk_id c) \<noteq> None"
  shows "delete_chunks r chs = (Inr (), chunks_without r (chunk_id ` set chs))"
  using assms
proof (induction chs arbitrary: r)
  case Nil
  then show ?case by (simp add: chunks_without_empty)
next
  case (Cons c cs)
  then obtain c' where c': "ch_items r (chunk_id c) = Some c'" by auto
  have d: "chunks_delete r (chunk_id c) = Inr (chunks_without r {chunk_id c})"
    by (rule chunks_delete_wf[OF Cons.prems(1) c'])
  have p: "\<forall>x \<in> set cs. ch_items (chunks_without r {chunk_id c}) (chunk_id x) \<noteq> None"
  proof
    fix x assume x: "x \<in> set cs"
    then have "chunk_id x \<noteq> chunk_id c" using Cons.prems(2) by (metis distinct.simps(2) image_eqI list.simps(9) set_map)
    then show "ch_items (chunks_without r {chunk_id c}) (chunk_id x) \<noteq> None"
      using Cons.prems(3) x by (simp add: chunks_without_def)
  qed
  have "delete_chunks (chunks_without r {chunk_id c}) cs
      = (Inr (), chunks_without (chunks_without r {chunk_id c}) (chunk_id ` set cs))"
    using Cons.prems p by (intro Cons.IH chunks_without_wf) auto
  then show ?case by (simp add: d chunks_without_twice)
qed

lemma lookup_all_present:
  "\<forall>i \<in> set ids. m i \<noteq> None \<Longrightarrow> lookup_all m ids = Inr (map (\<lambda>i. the (m i)) ids)"
  by (induction ids) auto

lemma chunks_of_document:
  assumes wf: "chunk_repo_wf r"
  shows "\<exists>chs. chunks_list_by_document r d = Inr chs \<and> map chunk_id chs = ch_by_document r d
     \<and> (\<forall>c \<in> set chs. ch_items r (chunk_id c) \<noteq> None)"
proof -
  have p: "\<forall>i \<in> set (ch_by_document r d). ch_items r i \<noteq> None"
    using wf unfolding chunk_repo_wf_def by auto
  have i: "\<forall>i \<in> set (ch_by_document r d). chunk_id (the (ch_items r i)) = i"
    using wf unfolding chunk_repo_wf_def by auto
  have "map chunk_id (map (\<lambda>i. the (ch_items r i)) (ch_by_document r d)) = ch_by_document r d"
    using i by (simp add: map_idI)
  moreover have "\<forall>c \<in> set (map (\<lambda>i. the (ch_items r i)) (ch_by_document r d)). ch_items r (chunk_id c) \<noteq> None"
    using p i by auto
  ultimately show ?thesis
    unfolding chunks_list_by_document_def lookup_all_present[OF p] by blast
qed

lemma documents_of_library:
  assumes wf: "document_repo_wf r"
  shows "\<exists>ds. documents_list_by_library r l = Inr ds \<and> map doc_id ds = doc_by_library r l
     \<and> (\<forall>d \<in> set ds. doc_items r (doc_id d) \<noteq> None)"
proof -
  have p: "\<forall>i \<in> set (doc_by_library r l). doc_items r i \<noteq> None"
    using wf unfolding document_repo_wf_def by auto
  have i: "\<forall>i \<in> set (doc_by_library r l). doc_id (the (doc_items r i)) = i"
    using wf unfolding document_repo_wf_def by auto
  have "map doc_id (map (\<lambda>i. the (doc_items r i)) (doc_by_library r l)) = doc_by_library r l"
    using i by (simp add: map_idI)
  moreover have "\<forall>c \<in> set (map (\<lambda>i. the (doc_items r i)) (doc_by_library r l)). doc_items r (doc_id c) \<noteq> None"
    using p i by auto
  ultimately show ?thesis
    unfolding documents_list_by_library_def lookup_all_present[OF p] by blast
qed

lemma cascade_documents_wf:
  assumes "document_repo_wf (sys_documents s)" "chunk_repo_wf (sys_chunks s)"
    "distinct (map doc_id ds)" "\<forall>d \<in> set ds. doc_items (sys_documents s) (doc_id d) \<noteq> None"
  shows "cascade_documents s ds =
     (Inr (), s\<lparr>sys_chunks := chunks_without (sys_chunks s) (chunks_under s (doc_id ` set ds)),
                 sys_documents := documents_without (sys_documents s) (doc_id ` set ds)\<rparr>)"
  using assms
proof (induction ds arbitrary: s)
  case Nil
  have "chunks_under s {} = {}" by (simp add: chunks_under_def)
  then show ?case by (simp add: chunks_without_empty documents_without_def)
next
  case (Cons d ds)
  define A where "A = chunks_under s {doc_id d}"
  from chunks_of_document[OF Cons.prems(2), of "doc_id d"] obtain chs where
    chs: "chunks_list_by_document (sys_chunks s) (doc_id d) = Inr chs"
      "map chunk_id chs = ch_by_document (sys_chunks s) (doc_id d)"
      "\<forall>c \<in> set chs. ch_items (sys_chunks s) (chunk_id c) \<noteq> None" by blast
  have dist: "distinct (map chunk_id chs)"
    using Cons.prems(2) chs(2) unfolding chunk_repo_wf_def by simp
  have "chunk_id ` set chs = set (ch_by_document (sys_chunks s) (doc_id d))"
    using chs(2) by (metis set_map)
  then have ids: "chunk_id ` set chs = A"
    using Cons.prems(2) unfolding chunk_repo_wf_def A_def chunks_under_def by simp
  have dc: "delete_chunks (sys_chunks s) chs = (Inr (), chunks_without (sys_chunks s) A)"
    using delete_chunks_wf[OF Cons.prems(2) dist chs(3)] ids by simp
  obtain d' where d': "doc_items (sys_documents s) (doc_id d) = Some d'" using Cons.prems(4) by auto
  have dd: "documents_delete (sys_documents s) (doc_id d) = Inr (documents_without (sys_documents s) {doc_id d})"
    by (rule documents_delete_wf[OF Cons.prems(1) d'])
  define s1 where "s1 = s\<lparr>sys_chunks := chunks_without (sys_chunks s) A,
       sys_documents := documents_without (sys_documents s) {doc_id d}\<rparr>"
  have step: "cascade_documents s (d # ds) = cascade_documents s1 ds"
    by (simp add: chs(1) dc dd s1_def)
  have p: "\<forall>x \<in> set ds. doc_items (sys_documents s1) (doc_id x) \<noteq> None"
  proof
    fix x assume x: "x \<in> set ds"
    then have "doc_id x \<noteq> doc_id d" using Cons.prems(3) by (metis distinct.simps(2) image_eqI list.simps(9) set_map)
    then show "doc_items (sys_documents s1) (doc_id x) \<noteq> None"
      using Cons.prems(4) x by (simp add: s1_def documents_without_def)
  qed
  have IH: "cascade_documents s1 ds =
     (Inr (), s1\<lparr>sys_chunks := chunks_without (sys_chunks s1) (chunks_under s1 (doc_id ` set ds)),
                 sys_documents := documents_without (sys_documents s1) (doc_id ` set ds)\<rparr>)"
    using Cons.prems p
    by (intro Cons.IH) (auto simp: s1_def chunks_without_wf documents_without_wf)
  have u: "A \<union> chunks_under s1 (doc_id ` set ds) = chunks_under s (doc_id ` set (d # ds))"
    by (auto simp: A_def chunks_under_def s1_def chunks_without_def split: if_splits)
  show ?case unfolding step IH using u
    by (simp add: s1_def chunks_without_twice documents_without_twice)
qed

lemma delete_descendants_wf:
  assumes "document_repo_wf (sys_documents s)" "chunk_repo_wf (sys_chunks s)"
  shows "delete_descendants s l =
     (Inr (), s\<lparr>sys_chunks := chunks_without (sys_chunks s) (chunks_under s (documents_of s l)),
                 sys_documents := documents_without (sys_documents s) (documents_of s l)\<rparr>)"
proof -
  from documents_of_library[OF assms(1), of l] obtain ds where
    ds: "documents_list_by_library (sys_documents s) l = Inr ds"
      "map doc_id ds = doc_by_library (sys_documents s) l"
      "\<forall>d \<in> set ds. doc_items (sys_documents s) (doc_id d) \<noteq> None" by blast
  have dist: "distinct (map doc_id ds)"
    using assms(1) ds(2) unfolding document_repo_wf_def by simp
  have "doc_id ` set ds = set (doc_by_library (sys_documents s) l)"
    using ds(2) by (metis set_map)
  then have ids: "doc_id ` set ds = documents_of s l"
    using assms(1) unfolding document_repo_wf_def documents_of_def by simp
  show ?thesis
    unfolding delete_descendants_def ds(1) using cascade_documents_wf[OF assms dist ds(3)] ids
    by simp
qed

text \<open>
  Claim C8, as stated, fails: the cascade reaches chunks through the documents of the
  library only.  Take library \<open>L\<close> with document \<open>D\<close> and chunk \<open>c1\<close> of \<open>D\<close>; delete \<open>D\<close>
  through the document service, which leaves \<open>c1\<close> in place; then delete \<open>L\<close> with cascade.
  Both calls succeed, and \<open>c1\<close>, whose \<open>library_id\<close> is \<open>L\<close>, is still returned by \<open>get\<close>.
\<close>

theorem cascade_orphan_counterexample:
  "fst (document_delete cascade_example ''D'') = Inr ()
   \<and> fst (library_delete (snd (document_delete cascade_example ''D'')) ''L'' True) = Inr ()
   \<and> chunks_get (sys_chunks (snd (library_delete (snd (document_delete cascade_example ''D'')) ''L'' True)))
        ''c1'' = Inr (mk_chunk ''c1'' [1, 0, 0, 0])
   \<and> chunk_library_id (mk_chunk ''c1'' [1, 0, 0, 0]) = ''L''"
  by (simp add: document_delete_def documents_delete_def library_delete_def delete_descendants_def
      documents_list_by_library_def libraries_get_def libraries_delete_def chunks_get_def
      set_discard_def cascade_example_def empty_system_def mk_chunk_def)

text \<open>
  Claim C8, amended.  On consistent repositories, deleting an existing library with
  cascade succeeds.  It first removes every chunk of every document of the library and
  every document of the library, the library still being there (the state \<open>s1\<close> after
  \<open>delete_descendants\<close>), and then the library.  Afterwards \<open>get\<close> fails with NotFound on the
  library, on each of its documents and on each chunk of those documents; the document
  repository holds no document of the library and the chunk repository no chunk attached
  to one of its documents; all other documents and chunks are kept.  (A chunk that names
  the library but hangs under no document of it is among those kept.)
\<close>

theorem library_delete_cascade:
  assumes "document_repo_wf (sys_documents s)" and "chunk_repo_wf (sys_chunks s)"
    and "libraries_get (sys_libraries s) l = Inr lib"
  shows "\<exists>s1 s'. delete_descendants s l = (Inr (), s1) \<and> library_delete s l True = (Inr (), s')
     \<and> sys_libraries s1 = sys_libraries s
     \<and> sys_documents s' = sys_documents s1 \<and> sys_chunks s' = sys_chunks s1
     \<and> libraries_get (sys_libraries s') l = Inl NotFoundError
     \<and> (\<forall>l'. l' \<noteq> l \<longrightarrow> sys_libraries s' l' = sys_libraries s l')
     \<and> (\<forall>d \<in> documents_of s l. documents_get (sys_documents s') d = Inl NotFoundError)
     \<and> (\<forall>c \<in> chunks_under s (documents_of s l). chunks_get (sys_chunks s') c = Inl NotFoundError)
     \<and> (\<forall>d x. doc_items (sys_documents s') d = Some x \<longrightarrow> doc_library_id x \<noteq> l)
     \<and> (\<forall>c x. ch_items (sys_chunks s') c = Some x \<longrightarrow> chunk_document_id x \<notin> documents_of s l)
     \<and> (\<forall>d. d \<notin> documents_of s l \<longrightarrow> doc_items (sys_documents s') d = doc_items (sys_documents s) d)
     \<and> (\<forall>c. c \<notin> chunks_under s (documents_of s l) \<longrightarrow>
            ch_items (sys_chunks s') c = ch_items (sys_chunks s) c)"
proof -
  define s1 where "s1 = s\<lparr>sys_chunks := chunks_without (sys_chunks s) (chunks_under s (documents_of s l)),
                 sys_documents := documents_without (sys_documents s) (documents_of s l)\<rparr>"
  define s' where "s' = s1\<lparr>sys_libraries := (sys_libraries s)(l := None)\<rparr>"
  have dd: "delete_descendants s l = (Inr (), s1)"
    unfolding s1_def by (rule delete_descendants_wf[OF assms(1,2)])
  have lib: "sys_libraries s l = Some lib"
    using assms(3) by (auto simp: libraries_get_def split: option.splits)
  have ld: "library_delete s l True = (Inr (), s')"
    using lib by (simp add: library_delete_def assms(3) dd libraries_delete_def s'_def s1_def domI)
  have a: "sys_libraries s1 = sys_libraries s" "sys_documents s' = sys_documents s1"
    "sys_chunks s' = sys_chunks s1" by (simp_all add: s1_def s'_def)
  have b: "libraries_get (sys_libraries s') l = Inl NotFoundError"
    "\<forall>l'. l' \<noteq> l \<longrightarrow> sys_libraries s' l' = sys_libraries s l'"
    by (simp_all add: s'_def libraries_get_def)
  have c: "\<forall>d \<in> documents_of s l. documents_get (sys_documents s') d = Inl NotFoundError"
    "\<forall>c \<in> chunks_under s (documents_of s l). chunks_get (sys_chunks s') c = Inl NotFoundError"
    by (simp_all add: s'_def s1_def documents_get_def chunks_get_def documents_without_def chunks_without_def)
  have d: "\<forall>d x. doc_items (sys_documents s') d = Some x \<longrightarrow> doc_library_id x \<noteq> l"
    by (auto simp: s'_def s1_def documents_without_def documents_of_def split: if_splits)
  have e: "\<forall>c x. ch_items (sys_chunks s') c = Some x \<longrightarrow> chunk_document_id x \<notin> documents_of s l"
    by (auto simp: s'_def s1_def chunks_without_def chunks_under_def split: if_splits)
  have f: "\<forall>d. d \<notin> documents_of s l \<longrightarrow> doc_items (sys_documents s') d = doc_items (sys_documents s) d"
    "\<forall>c. c \<notin> chunks_under s (documents_of s l) \<longrightarrow> ch_items (sys_chunks s') c = ch_items (sys_chunks s) c"
    by (simp_all add: s'_def s1_def documents_without_def chunks_without_def)
  from dd ld a b c d e f show ?thesis by blast
qed

lemma cascade_example_wf:
  "document_repo_wf (sys_documents cascade_example)" "chunk_repo_wf (sys_chunks cascade_example)"
  by (auto simp: document_repo_wf_def chunk_repo_wf_def cascade_example_def empty_system_def mk_chunk_def
      split: if_splits)

lemma cascade_example_library:
  "libraries_get (sys_libraries cascade_example) ''L'' =
     Inr \<lparr>lib_id = ''L'', lib_name = ''lib'', lib_embedding_dimension = 4, lib_default_index_type = BRUTE_FORCE\<rparr>"
  by (simp add: libraries_get_def cascade_example_def empty_system_def)

lemma cascade_example_members:
  "''D'' \<in> documents_of cascade_example ''L''"
  "''c1'' \<in> chunks_under cascade_example (documents_of cascade_example ''L'')"
  by (simp_all add: documents_of_def chunks_under_def cascade_example_def empty_system_def mk_chunk_def)

theorem library_delete_cascade_witness:
  "document_repo_wf (sys_documents cascade_example) \<and> chunk_repo_wf (sys_chunks cascade_example)
   \<and> libraries_get (sys_libraries cascade_example) ''L'' =
       Inr \<lparr>lib_id = ''L'', lib_name = ''lib'', lib_embedding_dimension = 4, lib_default_index_type = BRUTE_FORCE\<rparr>
   \<and> fst (library_delete cascade_example ''L'' True) = Inr ()
   \<and> libraries_get (sys_libraries (snd (library_delete cascade_example ''L'' True))) ''L'' = Inl NotFoundError
   \<and> documents_get (sys_documents (snd (library_delete cascade_example ''L'' True))) ''D'' = Inl NotFoundError
   \<and> chunks_get (sys_chunks (snd (library_delete cascade_example ''L'' True))) ''c1'' = Inl NotFoundError"
proof -
  from library_delete_cascade[OF cascade_example_wf cascade_example_library]
  obtain s' where s': "library_delete cascade_example ''L'' True = (Inr (), s')"
     "libraries_get (sys_libraries s') ''L'' = Inl NotFoundError"
     "\<forall>d \<in> documents_of cascade_example ''L''. documents_get (sys_documents s') d = Inl NotFoundError"
     "\<forall>c \<in> chunks_under cascade_example (documents_of cascade_example ''L'').
         chunks_get (sys_chunks s') c = Inl NotFoundError"
    by blast
  then show ?thesis
    using cascade_example_wf cascade_example_library cascade_example_members by simp
qed

section \<open>Filtered nearest-neighbour queries\<close>

lemma starts_with_iff: "starts_with ys xs \<longleftrightarrow> (\<exists>post. ys = xs @ post)"
  by (induction ys xs rule: starts_with.induct) auto

lemma contains_iff: "contains ys xs \<longleftrightarrow> (\<exists>pre post. ys = pre @ xs @ post)"
proof (induction ys)
  case Nil
  then show ?case by auto
next
  case (Cons y ys)
  show ?case
  proof
    assume "contains (y # ys) xs"
    then consider "starts_with (y # ys) xs" | "contains ys xs" by auto
    then show "\<exists>pre post. y # ys = pre @ xs @ post"
    proof cases
      case 1
      then obtain post where "y # ys = xs @ post" by (auto simp: starts_with_iff)
      then have "y # ys = [] @ xs @ post" by simp
      then show ?thesis by blast
    next
      case 2
      then obtain pre post where "ys = pre @ xs @ post" using Cons.IH by blast
      then have "y # ys = (y # pre) @ xs @ post" by simp
      then show ?thesis by blast
    qed
  next
    assume "\<exists>pre post. y # ys = pre @ xs @ post"
    then obtain pre post where e: "y # ys = pre @ xs @ post" by blast
    show "contains (y # ys) xs"
    proof (cases pre)
      case Nil
      then have "starts_with (y # ys) xs" using e by (auto simp: starts_with_iff)
      then show ?thesis by simp
    next
      case (Cons p pre')
      then have "ys = pre' @ xs @ post" using e by simp
      then have "contains ys xs" using Cons.IH by blast
      then show ?thesis by simp
    qed
  qed
qed














text \<open>
  The empty dictionary is a filter that is not \<^verbatim>\<open>None\<close>, and it is answered like no
  filter: from the index, or from all chunks when the index is stale.
\<close>

lemma knn_empty_dict:
  "knn P allow_stale s library_id q k (Some Empty_dict) = knn P allow_stale s library_id q k None"
  by (simp add: knn_def)






section \<open>The KD-tree's nearest neighbour and vectors of norm zero\<close>

lemma kd_inv_lengths: "kd_inv d t \<Longrightarrow> x \<in> tree_items t \<Longrightarrow> length (fst x) = d"
  by (induction t) auto

lemma sorted_key_nth_mono:
  assumes "sorted (map f xs)" "i \<le> j" "j < length xs"
  shows "f (xs ! i) \<le> f (xs ! j)"
  using sorted_nth_mono[OF assms(1), of i j] assms(2,3) by simp

lemma build_recursive_ok:
  assumes "\<forall>x \<in> set items. length (fst x) = d" "0 < d"
  shows "\<exists>t. build_recursive items depth = Inr t \<and> tree_items t = set items \<and> kd_inv d t"
  using assms
proof (induction items arbitrary: depth rule: length_induct)
  case (1 items)
  show ?case
  proof (cases items)
    case Nil
    then show ?thesis by simp
  next
    case (Cons first rest)
    define ax where "ax = depth mod d"
    define sorted_items where "sorted_items = sort_key (\<lambda>x. fst x ! ax) items"
    define mid where "mid = length sorted_items div 2"
    have fl: "length (fst first) = d" using 1(2) Cons by simp
    have axd: "ax < d" using 1(3) by (simp add: ax_def)
    have sba: "sort_by_axis ax items = Inr sorted_items"
      using 1(2) axd by (auto simp: sort_by_axis_def sorted_items_def list_all_iff)
    have len: "length sorted_items = length items" by (simp add: sorted_items_def)
    have set_s: "set sorted_items = set items" by (simp add: sorted_items_def)
    have midlt: "mid < length sorted_items" using len Cons by (simp add: mid_def)
    have srt: "sorted (map (\<lambda>x. fst x ! ax) sorted_items)" by (simp add: sorted_items_def)
    obtain p pid where ppid: "sorted_items ! mid = (p, pid)" by (cases "sorted_items ! mid")
    have lenl: "length (take mid sorted_items) < length items" using midlt len by simp
    have lenr: "length (drop (mid + 1) sorted_items) < length items" using midlt len by simp
    have dl: "\<forall>x \<in> set (take mid sorted_items). length (fst x) = d"
      using 1(2) set_s by (auto dest: in_set_takeD)
    have dr: "\<forall>x \<in> set (drop (mid + 1) sorted_items). length (fst x) = d"
      using 1(2) set_s by (auto dest: in_set_dropD)
    from 1(1)[rule_format, OF lenl dl[rule_format] 1(3), of "depth + 1"] obtain l where
      l: "build_recursive (take mid sorted_items) (depth + 1) = Inr l"
         "tree_items l = set (take mid sorted_items)" "kd_inv d l" by blast
    from 1(1)[rule_format, OF lenr dr[rule_format] 1(3), of "depth + 1"] obtain r where
      r: "build_recursive (drop (mid + 1) sorted_items) (depth + 1) = Inr r"
         "tree_items r = set (drop (mid + 1) sorted_items)" "kd_inv d r" by blast
    have b: "build_recursive items depth = Inr (Node p pid ax l r)"
      using fl 1(3) sba l(1) r(1) ppid
      by (simp add: Cons[symmetric] ax_def[symmetric] Let_def mid_def[symmetric] del: build_recursive.simps)
         (simp add: Cons ax_def Let_def mid_def sba[unfolded Cons ax_def] fl)
    have decomp: "sorted_items = take mid sorted_items @ (p, pid) # drop (mid + 1) sorted_items"
      using id_take_nth_drop[OF midlt] ppid by simp
    have items_eq: "tree_items (Node p pid ax l r) = set items"
      unfolding set_s[symmetric] using arg_cong[OF decomp, of set] l(2) r(2) by auto
    have pl: "length p = d" using 1(2) set_s ppid midlt by (metis fst_conv nth_mem)
    have left_le: "\<forall>x \<in> tree_items l. fst x ! ax \<le> p ! ax"
    proof
      fix x assume "x \<in> tree_items l"
      then obtain j where j: "j < mid" "sorted_items ! j = x"
        using l(2) midlt by (auto simp: in_set_conv_nth)
      then show "fst x ! ax \<le> p ! ax"
        using sorted_key_nth_mono[OF srt, of j mid] midlt ppid by simp
    qed
    have right_ge: "\<forall>x \<in> tree_items r. p ! ax \<le> fst x ! ax"
    proof
      fix x assume "x \<in> tree_items r"
      then obtain j where j: "j < length sorted_items - (mid + 1)" "sorted_items ! (mid + 1 + j) = x"
        using r(2) midlt by (auto simp: in_set_conv_nth)
      then show "p ! ax \<le> fst x ! ax"
        using sorted_key_nth_mono[OF srt, of mid "mid + 1 + j"] ppid by simp
    qed
    have "kd_inv d (Node p pid ax l r)"
      using axd pl left_le right_ge l(3) r(3) by simp
    then show ?thesis using b items_eq by blast
  qed
qed
lemma nth_le_sum_list_nonneg:
  "(\<forall>x \<in> set xs. 0 \<le> x) \<Longrightarrow> n < length xs \<Longrightarrow> xs ! n \<le> sum_list (xs :: real list)"
proof (induction xs arbitrary: n)
  case Nil
  then show ?case by simp
next
  case (Cons a xs)
  show ?case
  proof (cases n)
    case 0
    have "0 \<le> sum_list xs" using Cons.prems(1) by (simp add: sum_list_nonneg)
    then show ?thesis using 0 by simp
  next
    case (Suc m)
    have "xs ! m \<le> sum_list xs" using Cons.IH[of m] Cons.prems Suc by simp
    moreover have "0 \<le> a" using Cons.prems(1) by simp
    ultimately show ?thesis using Suc by simp
  qed
qed

lemma coord_le_distance_sq:
  assumes "ax < length q" "ax < length p"
  shows "(q ! ax - p ! ax) * (q ! ax - p ! ax) \<le> distance_sq q p"
proof -
  let ?xs = "map (\<lambda>(x, y). (x - y) * (x - y)) (zip q p)"
  have "\<forall>x \<in> set ?xs. 0 \<le> x" by auto
  moreover have "ax < length ?xs" using assms by simp
  ultimately have "?xs ! ax \<le> sum_list ?xs" by (rule nth_le_sum_list_nonneg)
  then show ?thesis using assms by (simp add: distance_sq_def)
qed

lemma search_node_step:
  assumes "ax < length q" "ax < length p"
  shows "search_node (Node p i ax l r) q k best =
           (let delta = q ! ax - p ! ax;
                first = (if delta < 0 then l else r);
                second = (if delta < 0 then r else l)
            in (case search_node first q k (keep_best k best (distance_sq q p, i)) of
                  Inl e \<Rightarrow> Inl e
                | Inr best3 \<Rightarrow>
                    if int (length best3) < k then search_node second q k best3
                    else if best3 = [] then Inl IndexError
                    else if delta * delta < fst (last best3) then search_node second q k best3
                    else Inr best3))"
  using assms by (simp add: py_nth_def Let_def keep_best_def)

lemma search_node_in_range:
  assumes "search_node (Node p i ax l r) q k best = Inr out"
  shows "ax < length q \<and> ax < length p"
  using assms by (auto simp: py_nth_def Let_def split: if_splits)

lemma keep_best_cases:
  "keep_best k best c = sort_key fst (best @ [c])
   \<or> (k < int (length best) + 1 \<and> keep_best k best c = butlast (sort_key fst (best @ [c])))"
  by (simp add: keep_best_def Let_def)

lemma keep_best_sorted: "sorted (map fst (keep_best k best c))"
proof -
  have s: "sorted (map fst (sort_key fst (best @ [c])))" by simp
  have "sorted (butlast (map fst (sort_key fst (best @ [c]))))"
    using s by (cases "map fst (sort_key fst (best @ [c])) = []") (auto simp: sorted_butlast)
  then have "sorted (map fst (butlast (sort_key fst (best @ [c]))))"
    by (simp only: map_butlast)
  then show ?thesis using s keep_best_cases[of k best c] by auto
qed

lemma keep_best_nonempty:
  assumes "1 \<le> k"
  shows "keep_best k best c \<noteq> []"
proof -
  have l1: "length (sort_key fst (best @ [c])) = length best + 1" by simp
  have l2: "length (butlast (sort_key fst (best @ [c]))) = length best" by simp
  from keep_best_cases[of k best c] show ?thesis
  proof
    assume "keep_best k best c = sort_key fst (best @ [c])"
    then have "length (keep_best k best c) = length best + 1" using l1 by (simp only:)
    then show ?thesis by auto
  next
    assume a: "k < int (length best) + 1 \<and> keep_best k best c = butlast (sort_key fst (best @ [c]))"
    then have "length (keep_best k best c) = length best" using l2 by (simp only:)
    moreover have "0 < length best" using a assms by linarith
    ultimately show ?thesis by auto
  qed
qed

lemma search_node_cases:
  assumes "search_node (Node p i ax l r) q k best = Inr out"
  obtains best3 where
    "search_node (if q ! ax - p ! ax < 0 then l else r) q k
       (keep_best k best (distance_sq q p, i)) = Inr best3"
    "out = best3 \<or> search_node (if q ! ax - p ! ax < 0 then r else l) q k best3 = Inr out"
proof -
  have rng: "ax < length q" "ax < length p" using search_node_in_range[OF assms] by auto
  define first where "first = (if q ! ax - p ! ax < 0 then l else r)"
  define second where "second = (if q ! ax - p ! ax < 0 then r else l)"
  define best2 where "best2 = keep_best k best (distance_sq q p, i)"
  have step: "(case search_node first q k best2 of
         Inl e \<Rightarrow> Inl e
       | Inr best3 \<Rightarrow>
           if int (length best3) < k then search_node second q k best3
           else if best3 = [] then Inl IndexError
           else if (q ! ax - p ! ax) * (q ! ax - p ! ax) < fst (last best3)
           then search_node second q k best3
           else Inr best3) = Inr out"
    using assms unfolding search_node_step[OF rng] Let_def first_def second_def best2_def .
  obtain best3 where b3: "search_node first q k best2 = Inr best3"
    using step by (cases "search_node first q k best2") auto
  have "out = best3 \<or> search_node second q k best3 = Inr out"
    using step unfolding b3 by (auto split: if_splits)
  then show ?thesis using that b3 unfolding first_def second_def best2_def by blast
qed

lemma keep_nearest:
  assumes "length best \<le> 1"
  shows "\<exists>m. keep_best 1 best c = [m] \<and>
             m \<in> set best \<union> {c} \<and> (\<forall>e \<in> set best \<union> {c}. fst m \<le> fst e)"
proof (cases best)
  case Nil
  then show ?thesis by (simp add: keep_best_def)
next
  case (Cons e0 rest)
  then have "best = [e0]" using assms by simp
  then show ?thesis by (cases "fst e0 \<le> fst c") (auto simp: keep_best_def)
qed

lemma search_node_sorted:
  assumes "search_node t q k best = Inr out" "sorted (map fst best)"
  shows "sorted (map fst out)"
  using assms
proof (induction t arbitrary: best out)
  case Leaf
  then show ?case by simp
next
  case (Node p i ax l r)
  define first where "first = (if q ! ax - p ! ax < 0 then l else r)"
  define second where "second = (if q ! ax - p ! ax < 0 then r else l)"
  define best2 where "best2 = keep_best k best (distance_sq q p, i)"
  obtain best3 where b3: "search_node first q k best2 = Inr best3"
    and o: "out = best3 \<or> search_node second q k best3 = Inr out"
    using search_node_cases[OF Node.prems(1)] unfolding first_def second_def best2_def by blast
  have s2: "sorted (map fst best2)" by (simp add: best2_def keep_best_sorted)
  have s3: "sorted (map fst best3)"
    using Node.IH(1)[of best2 best3] Node.IH(2)[of best2 best3] b3 s2
    by (auto simp: first_def split: if_splits)
  from o show ?case
  proof
    assume "out = best3"
    then show ?thesis using s3 by simp
  next
    assume "search_node second q k best3 = Inr out"
    then show ?thesis
      using Node.IH(1)[of best3 out] Node.IH(2)[of best3 out] s3
      by (auto simp: second_def split: if_splits)
  qed
qed

lemma search_node_nonempty:
  assumes "search_node t q k best = Inr out" "1 \<le> k" "best \<noteq> [] \<or> t \<noteq> Leaf"
  shows "out \<noteq> []"
  using assms
proof (induction t arbitrary: best out)
  case Leaf
  then show ?case by simp
next
  case (Node p i ax l r)
  define first where "first = (if q ! ax - p ! ax < 0 then l else r)"
  define second where "second = (if q ! ax - p ! ax < 0 then r else l)"
  define best2 where "best2 = keep_best k best (distance_sq q p, i)"
  obtain best3 where b3: "search_node first q k best2 = Inr best3"
    and o: "out = best3 \<or> search_node second q k best3 = Inr out"
    using search_node_cases[OF Node.prems(1)] unfolding first_def second_def best2_def by blast
  have n2: "best2 \<noteq> []" using Node.prems(2) by (simp add: best2_def keep_best_nonempty)
  have n3: "best3 \<noteq> []"
    using Node.IH(1)[of best2 best3] Node.IH(2)[of best2 best3] b3 n2 Node.prems(2)
    by (auto simp: first_def split: if_splits)
  from o show ?case
  proof
    assume "out = best3"
    then show ?thesis using n3 by simp
  next
    assume "search_node second q k best3 = Inr out"
    then show ?thesis
      using Node.IH(1)[of best3 out] Node.IH(2)[of best3 out] n3 Node.prems(2)
      by (auto simp: second_def split: if_splits)
  qed
qed

lemma sorted_last_Max:
  assumes "sorted (map fst xs)" "xs \<noteq> []"
  shows "fst (last xs) = Max (fst ` set (xs :: (real \<times> 'a) list))"
proof -
  have "\<forall>x \<in> set xs. fst x \<le> fst (last xs)"
  proof
    fix x assume "x \<in> set xs"
    then obtain j where j: "j < length xs" "xs ! j = x" by (auto simp: in_set_conv_nth)
    have "map fst xs ! j \<le> map fst xs ! (length xs - 1)"
      using assms j by (intro sorted_nth_mono) auto
    then show "fst x \<le> fst (last xs)" using j assms(2) by (simp add: last_conv_nth)
  qed
  moreover have "fst (last xs) \<in> fst ` set xs" using assms(2) by simp
  ultimately show ?thesis by (intro Max_eqI[symmetric]) auto
qed

text \<open>
  The traversal rule of \<^verbatim>\<open>_search_node\<close>: after the near side of the splitting plane has
  been searched, the far side is searched exactly when fewer than \<open>k\<close> candidates are held
  or the squared distance of the query to the plane is below the largest distance held.
\<close>

lemma search_node_far_branch:
  assumes "1 \<le> k" "ax < length q" "ax < length p" "sorted (map fst best)"
    and "search_node (if q ! ax - p ! ax < 0 then l else r) q k
           (keep_best k best (distance_sq q p, i)) = Inr held"
  shows "search_node (Node p i ax l r) q k best =
           (if int (length held) < k
               \<or> (q ! ax - p ! ax) * (q ! ax - p ! ax) < Max (fst ` set held)
            then search_node (if q ! ax - p ! ax < 0 then r else l) q k held
            else Inr held)"
proof -
  have ne: "held \<noteq> []"
    using search_node_nonempty[OF assms(5,1)] keep_best_nonempty[OF assms(1)] by simp
  have "sorted (map fst held)"
    using search_node_sorted[OF assms(5)] keep_best_sorted by simp
  then have "fst (last held) = Max (fst ` set held)" using ne by (rule sorted_last_Max)
  then show ?thesis
    unfolding search_node_step[OF assms(2,3)] Let_def assms(5) using ne by simp
qed

lemma search_node_top1:
  assumes "kd_inv d t" "length q = d" "length best \<le> 1" "best \<noteq> [] \<or> t \<noteq> Leaf"
  shows "\<exists>m. search_node t q 1 best = Inr [m] \<and> m \<in> set best \<union> candidates q t \<and>
             (\<forall>e \<in> set best \<union> candidates q t. fst m \<le> fst e)"
  using assms
proof (induction t arbitrary: best)
  case Leaf
  then obtain m where "best = [m]" by (cases best) auto
  then show ?case by (simp add: candidates_def)
next
  case (Node p i ax l r)
  define delta where "delta = q ! ax - p ! ax"
  define first where "first = (if delta < 0 then l else r)"
  define second where "second = (if delta < 0 then r else l)"
  have axq: "ax < length q" and axp: "ax < length p" using Node.prems by auto
  have inv1: "kd_inv d first" and inv2: "kd_inv d second"
    using Node.prems(1) by (auto simp: first_def second_def)
  obtain m2 where m2:
    "keep_best 1 best (distance_sq q p, i) = [m2]"
    "m2 \<in> set best \<union> {(distance_sq q p, i)}"
    "\<forall>e \<in> set best \<union> {(distance_sq q p, i)}. fst m2 \<le> fst e"
    using keep_nearest[OF Node.prems(3)] by blast
  have ih1: "\<exists>m. search_node first q 1 [m2] = Inr [m] \<and> m \<in> set [m2] \<union> candidates q first \<and>
             (\<forall>e \<in> set [m2] \<union> candidates q first. fst m \<le> fst e)"
    using Node.IH(1)[of "[m2]"] Node.IH(2)[of "[m2]"] inv1 Node.prems(2)
    by (auto simp: first_def)
  then obtain m3 where m3: "search_node first q 1 [m2] = Inr [m3]"
    "m3 \<in> set [m2] \<union> candidates q first"
    "\<forall>e \<in> set [m2] \<union> candidates q first. fst m3 \<le> fst e" by blast
  have step: "search_node (Node p i ax l r) q 1 best =
      (if delta * delta < fst m3 then search_node second q 1 [m3] else Inr [m3])"
    unfolding search_node_step[OF axq axp] Let_def m2(1)
      delta_def[symmetric] first_def[symmetric] second_def[symmetric] m3(1)
    by simp
  have cands: "candidates q (Node p i ax l r) =
      insert (distance_sq q p, i) (candidates q first \<union> candidates q second)"
    by (auto simp: candidates_def first_def second_def)
  have m3_in: "m3 \<in> set best \<union> insert (distance_sq q p, i) (candidates q first)"
    using m3(2) m2(2) by auto
  have m3_min: "\<forall>e \<in> set best \<union> insert (distance_sq q p, i) (candidates q first). fst m3 \<le> fst e"
  proof
    fix e assume e: "e \<in> set best \<union> insert (distance_sq q p, i) (candidates q first)"
    have "fst m3 \<le> fst m2" using m3(3) by simp
    moreover have "e \<in> candidates q first \<or> fst m2 \<le> fst e" using e m2(3) by auto
    ultimately show "fst m3 \<le> fst e" using m3(3) by auto
  qed
  show ?case
  proof (cases "delta * delta < fst m3")
    case True
    have "\<exists>m. search_node second q 1 [m3] = Inr [m] \<and> m \<in> set [m3] \<union> candidates q second \<and>
             (\<forall>e \<in> set [m3] \<union> candidates q second. fst m \<le> fst e)"
      using Node.IH(1)[of "[m3]"] Node.IH(2)[of "[m3]"] inv2 Node.prems(2)
      by (auto simp: second_def)
    then obtain m where m: "search_node second q 1 [m3] = Inr [m]"
      "m \<in> set [m3] \<union> candidates q second"
      "\<forall>e \<in> set [m3] \<union> candidates q second. fst m \<le> fst e" by blast
    have r: "search_node (Node p i ax l r) q 1 best = Inr [m]" using step True m(1) by simp
    have m_in: "m \<in> set best \<union> candidates q (Node p i ax l r)"
      using m(2) m3_in unfolding cands by auto
    have m_min: "\<forall>e \<in> set best \<union> candidates q (Node p i ax l r). fst m \<le> fst e"
    proof
      fix e assume e: "e \<in> set best \<union> candidates q (Node p i ax l r)"
      have "fst m \<le> fst m3" using m(3) by simp
      moreover have "e \<in> candidates q second \<or> fst m3 \<le> fst e"
        using e m3_min unfolding cands by auto
      ultimately show "fst m \<le> fst e" using m(3) by auto
    qed
    show ?thesis using r m_in m_min by blast
  next
    case False
    have r: "search_node (Node p i ax l r) q 1 best = Inr [m3]" using step False by simp
    have far: "\<forall>e \<in> candidates q second. delta * delta \<le> fst e"
    proof
      fix e assume "e \<in> candidates q second"
      then obtain x where x: "x \<in> tree_items second" "e = (distance_sq q (fst x), snd x)"
        by (auto simp: candidates_def)
      have lx: "length (fst x) = d" using kd_inv_lengths[OF inv2 x(1)] .
      have c: "(q ! ax - fst x ! ax) * (q ! ax - fst x ! ax) \<le> distance_sq q (fst x)"
        using coord_le_distance_sq[of ax q "fst x"] lx Node.prems(1,2) by simp
      have "delta * delta \<le> (q ! ax - fst x ! ax) * (q ! ax - fst x ! ax)"
      proof (cases "delta < 0")
        case True
        then have "p ! ax \<le> fst x ! ax" using x(1) Node.prems(1) by (simp add: second_def)
        then have "0 \<le> - delta" "- delta \<le> fst x ! ax - q ! ax"
          using True by (simp_all add: delta_def)
        then have "(- delta) * (- delta) \<le> (fst x ! ax - q ! ax) * (fst x ! ax - q ! ax)"
          by (intro mult_mono) auto
        moreover have "(fst x ! ax - q ! ax) * (fst x ! ax - q ! ax)
            = (q ! ax - fst x ! ax) * (q ! ax - fst x ! ax)" by (simp add: algebra_simps)
        ultimately show ?thesis by simp
      next
        case False
        then have "fst x ! ax \<le> p ! ax" using x(1) Node.prems(1) by (simp add: second_def)
        then have "0 \<le> delta" "delta \<le> q ! ax - fst x ! ax"
          using False by (simp_all add: delta_def)
        then show ?thesis by (intro mult_mono) auto
      qed
      then show "delta * delta \<le> fst e" using c x(2) by simp
    qed
    have m_in: "m3 \<in> set best \<union> candidates q (Node p i ax l r)"
      using m3_in unfolding cands by auto
    have m_min: "\<forall>e \<in> set best \<union> candidates q (Node p i ax l r). fst m3 \<le> fst e"
    proof
      fix e assume e: "e \<in> set best \<union> candidates q (Node p i ax l r)"
      have "e \<in> candidates q second \<or> fst m3 \<le> fst e"
        using e m3_min unfolding cands by auto
      then show "fst m3 \<le> fst e" using far False by force
    qed
    show ?thesis using r m_in m_min by blast
  qed
qed
lemma length_normalize: "length (normalize a) = length a"
  by (simp add: normalize_def Let_def)

text \<open>
  What the tree does guarantee, in the arithmetic of this model: for stored vectors of the
  query's dimension, \<^verbatim>\<open>search(q, 1)\<close> returns the id of a stored vector whose normalized
  point is nearest to the normalized query in squared Euclidean distance, scored
  \<open>1 - d\<^sup>2/2\<close>.  Nothing is assumed about the norms: a zero vector is stored as the zero
  point and competes with its distance 1.
\<close>

lemma kd_build_search_top1:
  assumes "vectors \<noteq> []" "length ids = length vectors"
    and "list_all (\<lambda>v. length v = length q) vectors" "q \<noteq> []"
  shows "\<exists>s i v. kd_build s0 vectors ids = Inr s
           \<and> (v, i) \<in> set (zip vectors ids)
           \<and> kd_search s q 1 = Inr [(i, 1 - distance_sq (normalize q) (normalize v) / 2)]
           \<and> (\<forall>v' \<in> set vectors. distance_sq (normalize q) (normalize v)
                                    \<le> distance_sq (normalize q) (normalize v'))"
proof -
  define d where "d = length q"
  define items where "items = zip (map normalize vectors) ids"
  define qn where "qn = normalize q"
  have vs: "\<forall>v \<in> set vectors. length v = d"
    using assms(3) by (simp add: list_all_iff d_def)
  have dpos: "0 < d" using assms(4) by (simp add: d_def)
  have items_eq: "items = map (\<lambda>(v, i). (normalize v, i)) (zip vectors ids)"
    by (simp add: items_def zip_map1)
  have il: "\<forall>x \<in> set items. length (fst x) = d"
    using vs by (auto simp: items_eq length_normalize dest: set_zip_leftD)
  obtain t where t: "build_recursive items 0 = Inr t" "tree_items t = set items" "kd_inv d t"
    using build_recursive_ok[OF il dpos, of 0] by blast
  have ine: "items \<noteq> []" using assms(1,2) by (cases vectors; cases ids) (auto simp: items_def)
  then have tl: "t \<noteq> Leaf" using t(2) by (cases t) auto
  define s where "s = s0\<lparr>kd_dim := length (hd (map normalize vectors)), kd_root := t,
      kd_size := length (sort_key (\<lambda>x. fst x ! 0) items),
      kd_id_to_point := dict_of_items (sort_key (\<lambda>x. fst x ! 0) items)\<rparr>"
  have b: "kd_build s0 vectors ids = Inr s"
    using assms(1) t(1) by (simp add: kd_build_def Let_def items_def s_def)
  have rt: "kd_root s = t" by (simp add: s_def)
  have ql: "length qn = d" by (simp add: qn_def d_def length_normalize)
  obtain m where m: "search_node t qn 1 [] = Inr [m]" "m \<in> candidates qn t"
    "\<forall>e \<in> candidates qn t. fst m \<le> fst e"
    using search_node_top1[OF t(3) ql, of "[]"] tl by auto
  have sr: "kd_search s q 1 = Inr [(snd m, 1 - fst m / 2)]"
    using m(1) tl by (simp add: kd_search_def rt qn_def[symmetric] case_prod_unfold)
  obtain v i where vi: "(v, i) \<in> set (zip vectors ids)" "m = (distance_sq qn (normalize v), i)"
    using m(2) t(2) by (auto simp: candidates_def items_eq)
  have mn: "\<forall>v' \<in> set vectors. distance_sq qn (normalize v) \<le> distance_sq qn (normalize v')"
  proof
    fix v' assume "v' \<in> set vectors"
    then obtain n where n: "n < length vectors" "vectors ! n = v'" by (auto simp: in_set_conv_nth)
    then have "(v', ids ! n) \<in> set (zip vectors ids)" using assms(2) by (auto simp: set_zip)
    then have "(normalize v', ids ! n) \<in> tree_items t" unfolding t(2) items_eq by force
    then have "(distance_sq qn (normalize v'), ids ! n) \<in> candidates qn t"
      by (force simp: candidates_def)
    then show "distance_sq qn (normalize v) \<le> distance_sq qn (normalize v')"
      using m(3) vi(2) by auto
  qed
  show ?thesis using b vi(1) sr vi(2) mn unfolding qn_def by auto
qed

lemma sqrt_sixteen: "sqrt 16 = 4"
  using real_sqrt_abs[of 4] by simp

lemma normalize_11123: "normalize [1, 1, 1, 2, 3] = [1 / 4, 1 / 4, 1 / 4, 1 / 2, 3 / 4]"
  by (simp add: normalize_def l2_norm_def sqrt_sixteen)

lemma normalize_00000: "normalize [0, 0, 0, 0, 0] = [0, 0, 0, 0, 0]"
  by (simp add: normalize_def l2_norm_def)

lemma normalize_10000: "normalize [1, 0, 0, 0, 0] = [1, 0, 0, 0, 0]"
  by (simp add: normalize_def l2_norm_def)

text \<open>
  Claim C1 (the top-1 result of the KD-tree has maximal cosine similarity to the query
  among the stored vectors, as the top-1 result of the brute-force index has) fails in the
  code when a stored vector has norm zero.  \<^verbatim>\<open>normalize\<close> leaves such a vector zero, at
  squared distance 1 from every unit query, and \<^verbatim>\<open>search\<close> converts that distance to the
  score \<open>1 - 1/2 = 1/2\<close>, where \<^verbatim>\<open>cosine_similarity\<close> and the brute-force index give a
  zero vector the similarity 0.  With \<open>a = [0, 0, 0, 0, 0]\<close> and \<open>b = [1, 1, 1, 2, 3]\<close>
  stored, the query \<open>[1, 0, 0, 0, 0]\<close> is answered with \<open>a\<close> at score \<open>1/2\<close>, although the
  cosine similarity of the query to \<open>a\<close> is 0 and to \<open>b\<close> is \<open>1/4\<close>; the brute-force index
  answers \<open>b\<close> at \<open>1/4\<close>.  Every number of this run is a multiple of \<open>1/16\<close> of small size
  (the norm of \<open>b\<close> is \<open>sqrt 16 = 4\<close>), so the double-precision run of the code computes
  exactly the values stated here.
\<close>

theorem kd_zero_vector_ranked_first:
  "kd_build kd_init [[0, 0, 0, 0, 0], [1, 1, 1, 2, 3]] [''a'', ''b'']
     = Inr \<lparr>kd_root = Node [1 / 4, 1 / 4, 1 / 4, 1 / 2, 3 / 4] ''b'' 0
                        (Node [0, 0, 0, 0, 0] ''a'' 1 Leaf Leaf) Leaf,
            kd_size = 2, kd_dim = 5,
            kd_id_to_point = [(''a'', [0, 0, 0, 0, 0]),
                              (''b'', [1 / 4, 1 / 4, 1 / 4, 1 / 2, 3 / 4])]\<rparr>
   \<and> kd_search \<lparr>kd_root = Node [1 / 4, 1 / 4, 1 / 4, 1 / 2, 3 / 4] ''b'' 0
                        (Node [0, 0, 0, 0, 0] ''a'' 1 Leaf Leaf) Leaf,
            kd_size = 2, kd_dim = 5,
            kd_id_to_point = [(''a'', [0, 0, 0, 0, 0]),
                              (''b'', [1 / 4, 1 / 4, 1 / 4, 1 / 2, 3 / 4])]\<rparr>
        [1, 0, 0, 0, 0] 1
     = Inr [(''a'', 1 / 2)]
   \<and> cosine_similarity [1, 0, 0, 0, 0] [0, 0, 0, 0, 0] = 0
   \<and> cosine_similarity [1, 0, 0, 0, 0] [1, 1, 1, 2, 3] = 1 / 4
   \<and> bf_search (bf_build (bf_init True) [[0, 0, 0, 0, 0], [1, 1, 1, 2, 3]] [''a'', ''b''])
        [1, 0, 0, 0, 0] 1
     = [(''b'', 1 / 4)]"
proof -
  have b: "kd_build kd_init [[0, 0, 0, 0, 0], [1, 1, 1, 2, 3]] [''a'', ''b'']
     = Inr \<lparr>kd_root = Node [1 / 4, 1 / 4, 1 / 4, 1 / 2, 3 / 4] ''b'' 0
                        (Node [0, 0, 0, 0, 0] ''a'' 1 Leaf Leaf) Leaf,
            kd_size = 2, kd_dim = 5,
            kd_id_to_point = [(''a'', [0, 0, 0, 0, 0]),
                              (''b'', [1 / 4, 1 / 4, 1 / 4, 1 / 2, 3 / 4])]\<rparr>"
    by (simp add: kd_build_def kd_init_def normalize_11123 normalize_00000 sort_by_axis_def
        dict_of_items_def Let_def)
  have s: "kd_search \<lparr>kd_root = Node [1 / 4, 1 / 4, 1 / 4, 1 / 2, 3 / 4] ''b'' 0
                        (Node [0, 0, 0, 0, 0] ''a'' 1 Leaf Leaf) Leaf,
            kd_size = 2, kd_dim = 5,
            kd_id_to_point = [(''a'', [0, 0, 0, 0, 0]),
                              (''b'', [1 / 4, 1 / 4, 1 / 4, 1 / 2, 3 / 4])]\<rparr>
        [1, 0, 0, 0, 0] 1
     = Inr [(''a'', 1 / 2)]"
    by (simp add: kd_search_def normalize_10000 distance_sq_def py_nth_def Let_def)
  have c0: "cosine_similarity [1, 0, 0, 0, 0] [0, 0, 0, 0, 0] = 0"
    by (simp add: cosine_similarity_def l2_norm_def)
  have c1: "cosine_similarity [1, 0, 0, 0, 0] [1, 1, 1, 2, 3] = 1 / 4"
    by (simp add: cosine_similarity_def l2_norm_def dot_def sqrt_sixteen)
  have c1n: "cosine_similarity [1, 0, 0, 0, 0] [1 / 4, 1 / 4, 1 / 4, 1 / 2, 3 / 4] = 1 / 4"
    by (simp add: cosine_similarity_def l2_norm_def dot_def)
  have f: "bf_search (bf_build (bf_init True) [[0, 0, 0, 0, 0], [1, 1, 1, 2, 3]] [''a'', ''b''])
        [1, 0, 0, 0, 0] 1
     = [(''b'', 1 / 4)]"
    by (simp add: bf_search_def bf_build_def bf_init_def normalize_11123 normalize_00000
        normalize_10000 sort_desc_def c0 c1n Let_def)
  show ?thesis using b s c0 c1 f by simp
qed

section \<open>Incremental maintenance keeps a live index current\<close>

subsection \<open>The incremental calls of the three indexes\<close>

lemma bf_vector_of_None: "bf_inv b \<Longrightarrow> bf_vector_of b j = None \<longleftrightarrow> j \<notin> set (bf_ids b)"
  using bf_inv_dom[of b] by (auto simp: bf_vector_of_def split: option.splits)

lemma bf_add_ok:
  assumes "bf_inv b" "i \<notin> set (bf_ids b)"
  shows "\<exists>b'. bf_add b v i = Inr b' \<and> set (bf_ids b') = insert i (set (bf_ids b)) \<and> bf_inv b'"
proof -
  have "i \<notin> dom (bf_pos b)" using assms bf_inv_dom by blast
  then obtain b' where b': "bf_add b v i = Inr b'" "bf_ids b' = bf_ids b @ [i]"
    by (simp add: bf_add_def Let_def)
  then show ?thesis using bf_inv_add[OF assms(1) b'(1)] by auto
qed

lemma bf_remove_ok:
  assumes "bf_inv b" "i \<in> set (bf_ids b)"
  shows "\<exists>b'. bf_remove b i = Inr b' \<and> set (bf_ids b') = set (bf_ids b) - {i} \<and> bf_inv b'"
proof (cases "bf_remove b i")
  case (Inl e)
  then show ?thesis using bf_remove_error[OF assms(1) Inl] assms(2) by simp
next
  case (Inr b')
  note r = bf_remove_inv[OF assms(1) Inr]
  have "\<And>j. j \<in> set (bf_ids b') \<longleftrightarrow> j \<in> set (bf_ids b) - {i}"
  proof -
    fix j
    show "j \<in> set (bf_ids b') \<longleftrightarrow> j \<in> set (bf_ids b) - {i}"
      using r(2,3) bf_vector_of_None[OF r(1), of j] bf_vector_of_None[OF assms(1), of j]
      by (cases "j = i") auto
  qed
  then show ?thesis using Inr r(1) by blast
qed

lemma bf_update_ok:
  assumes "bf_inv b" "i \<in> set (bf_ids b)"
  shows "\<exists>b'. bf_update b i v = Inr b' \<and> set (bf_ids b') = set (bf_ids b) \<and> bf_inv b'"
proof (cases "bf_update b i v")
  case (Inl e)
  then show ?thesis using bf_update_error[OF assms(1) Inl] assms(2) by simp
next
  case (Inr b')
  then have "bf_ids b' = bf_ids b"
    by (auto simp: bf_update_def Let_def split: option.splits if_splits)
  then show ?thesis using Inr bf_inv_update[OF assms(1) Inr] by simp
qed

lemma alist_delete_keys: "fst ` set (AList.delete i al) = fst ` set al - {i}"
  by (induction al) auto

lemma lsh_add_ok:
  assumes "i \<notin> fst ` set (lsh_id_to_vec h)"
  shows "\<exists>h'. lsh_add G h v i = Inr h'
           \<and> fst ` set (lsh_id_to_vec h') = insert i (fst ` set (lsh_id_to_vec h))"
  using assms by (simp add: lsh_add_def Let_def init_planes_def dom_update)

lemma lsh_remove_ok:
  assumes "i \<in> fst ` set (lsh_id_to_vec h)"
  shows "\<exists>h'. lsh_remove h i = Inr h'
           \<and> fst ` set (lsh_id_to_vec h') = fst ` set (lsh_id_to_vec h) - {i}"
proof -
  obtain vn where "map_of (lsh_id_to_vec h) i = Some vn"
    using assms by (metis map_of_eq_None_iff not_Some_eq)
  then show ?thesis by (simp add: lsh_remove_def Let_def alist_delete_keys)
qed

lemma lsh_update_ok:
  assumes "i \<in> fst ` set (lsh_id_to_vec h)"
  shows "\<exists>h'. lsh_update G h i v = Inr h'
           \<and> fst ` set (lsh_id_to_vec h') = fst ` set (lsh_id_to_vec h)"
proof -
  obtain h1 where h1: "lsh_remove h i = Inr h1"
    "fst ` set (lsh_id_to_vec h1) = fst ` set (lsh_id_to_vec h) - {i}"
    using lsh_remove_ok[OF assms] by blast
  then have "i \<notin> fst ` set (lsh_id_to_vec h1)" by simp
  from lsh_add_ok[OF this, of G v] obtain h' where "lsh_add G h1 v i = Inr h'"
    "fst ` set (lsh_id_to_vec h') = insert i (fst ` set (lsh_id_to_vec h1))" by blast
  then show ?thesis using h1 assms by (auto simp: lsh_update_def)
qed
lemma alist_update_set: "set (AList.update k v al) \<subseteq> insert (k, v) (set al)"
  by (induction al) auto

lemma dict_fold_keys:
  "fst ` set (fold (\<lambda>(p, i) d. AList.update i p d) items d0) = fst ` set d0 \<union> snd ` set items"
proof (induction items arbitrary: d0)
  case Nil
  then show ?case by simp
next
  case (Cons x items)
  obtain p i where x: "x = (p, i)" by (cases x)
  show ?case using Cons[of "AList.update i p d0"] by (auto simp: x dom_update)
qed

lemma dict_fold_values:
  "(i, p) \<in> set (fold (\<lambda>(p, i) d. AList.update i p d) items d0)
     \<Longrightarrow> (i, p) \<in> set d0 \<or> (p, i) \<in> set items"
proof (induction items arbitrary: d0)
  case Nil
  then show ?case by simp
next
  case (Cons x items)
  obtain p' i' where x: "x = (p', i')" by (cases x)
  from Cons.prems have "(i, p) \<in> set (fold (\<lambda>(p, i) d. AList.update i p d) items (AList.update i' p' d0))"
    by (simp add: x)
  from Cons.IH[OF this] show ?case using alist_update_set[of i' p' d0] by (auto simp: x)
qed

lemma dict_of_items_keys: "fst ` set (dict_of_items items) = snd ` set items"
  by (simp add: dict_of_items_def dict_fold_keys)

lemma dict_of_items_values: "(i, p) \<in> set (dict_of_items items) \<Longrightarrow> (p, i) \<in> set items"
  using dict_fold_values[of i p items "[]"] by (simp add: dict_of_items_def)

lemma kd_build_ok:
  assumes "length ids = length vectors" "0 < d" "list_all (\<lambda>v. length v = d) vectors"
  shows "\<exists>t'. kd_build t vectors ids = Inr t'
           \<and> fst ` set (kd_id_to_point t') = set ids
           \<and> list_all (\<lambda>x. length (snd x) = d) (kd_id_to_point t')"
proof (cases "vectors = []")
  case True
  then show ?thesis using assms(1) by (simp add: kd_build_def)
next
  case False
  define items where "items = zip (map normalize vectors) ids"
  define items' where "items' = sort_key (\<lambda>x. fst x ! 0) items"
  have il: "\<forall>x \<in> set items. length (fst x) = d"
    using assms(3) by (auto simp: items_def list_all_iff length_normalize dest!: set_zip_leftD)
  obtain rt where rt: "build_recursive items 0 = Inr rt"
    using build_recursive_ok[OF il assms(2), of 0] by blast
  define t' where "t' = t\<lparr>kd_dim := length (hd (map normalize vectors)), kd_root := rt,
      kd_size := length items', kd_id_to_point := dict_of_items items'\<rparr>"
  have b: "kd_build t vectors ids = Inr t'"
    using False rt by (simp add: kd_build_def Let_def items_def items'_def t'_def)
  have si: "set items' = set items" by (simp add: items'_def)
  have "snd ` set items = set (map snd items)" by simp
  also have "\<dots> = set ids" using assms(1) by (simp add: items_def)
  finally have k: "fst ` set (kd_id_to_point t') = set ids"
    by (simp add: t'_def dict_of_items_keys si)
  have v: "list_all (\<lambda>x. length (snd x) = d) (kd_id_to_point t')"
    unfolding list_all_iff
  proof
    fix x assume "x \<in> set (kd_id_to_point t')"
    then have "(snd x, fst x) \<in> set items"
      using dict_of_items_values[of "fst x" "snd x" items'] si by (simp add: t'_def)
    then show "length (snd x) = d" using il by force
  qed
  show ?thesis using b k v by blast
qed

lemma kd_add_ok:
  assumes "0 < d" "list_all (\<lambda>x. length (snd x) = d) (kd_id_to_point t)" "length v = d"
  shows "\<exists>t'. kd_add t v i = Inr t'
           \<and> fst ` set (kd_id_to_point t') = insert i (fst ` set (kd_id_to_point t))
           \<and> list_all (\<lambda>x. length (snd x) = d) (kd_id_to_point t')"
proof -
  have l: "length (map fst (kd_id_to_point t) @ [i]) = length (map snd (kd_id_to_point t) @ [normalize v])"
    by simp
  have a: "list_all (\<lambda>v. length v = d) (map snd (kd_id_to_point t) @ [normalize v])"
    using assms(2,3) by (simp add: list_all_iff length_normalize)
  from kd_build_ok[OF l assms(1) a, of t] show ?thesis
    by (auto simp: kd_add_def Let_def)
qed

lemma kd_remove_ok:
  assumes "0 < d" "list_all (\<lambda>x. length (snd x) = d) (kd_id_to_point t)"
    and "i \<in> fst ` set (kd_id_to_point t)"
  shows "\<exists>t'. kd_remove t i = Inr t'
           \<and> fst ` set (kd_id_to_point t') = fst ` set (kd_id_to_point t) - {i}
           \<and> list_all (\<lambda>x. length (snd x) = d) (kd_id_to_point t')"
proof -
  define all_ids where "all_ids = filter (\<lambda>j. j \<noteq> i) (map fst (kd_id_to_point t))"
  define all_points where "all_points = map (\<lambda>j. the (map_of (kd_id_to_point t) j)) all_ids"
  have l: "length all_ids = length all_points" by (simp add: all_points_def)
  have a: "list_all (\<lambda>v. length v = d) all_points"
    unfolding list_all_iff
  proof
    fix p assume "p \<in> set all_points"
    then obtain j where j: "j \<in> fst ` set (kd_id_to_point t)" "p = the (map_of (kd_id_to_point t) j)"
      by (auto simp: all_points_def all_ids_def)
    then obtain p' where "map_of (kd_id_to_point t) j = Some p'"
      by (metis map_of_eq_None_iff not_Some_eq)
    then have "(j, p) \<in> set (kd_id_to_point t)" using j(2) by (auto dest: map_of_SomeD)
    then show "length p = d" using assms(2) by (auto simp: list_all_iff)
  qed
  have s: "set all_ids = fst ` set (kd_id_to_point t) - {i}" by (auto simp: all_ids_def)
  from kd_build_ok[OF l assms(1) a, of t] show ?thesis
    using assms(3) s by (auto simp: kd_remove_def Let_def all_ids_def all_points_def)
qed

lemma kd_update_ok:
  assumes "0 < d" "list_all (\<lambda>x. length (snd x) = d) (kd_id_to_point t)"
    and "i \<in> fst ` set (kd_id_to_point t)" "length v = d"
  shows "\<exists>t'. kd_update t i v = Inr t'
           \<and> fst ` set (kd_id_to_point t') = fst ` set (kd_id_to_point t)
           \<and> list_all (\<lambda>x. length (snd x) = d) (kd_id_to_point t')"
proof -
  define dict where "dict = AList.update i (normalize v) (kd_id_to_point t)"
  define all_points where "all_points = map (\<lambda>j. the (map_of dict j)) (map fst dict)"
  have l: "length (map fst dict) = length all_points" by (simp add: all_points_def)
  have dl: "\<forall>x \<in> set dict. length (snd x) = d"
    using alist_update_set[of i "normalize v" "kd_id_to_point t"] assms(2,4)
    by (auto simp: dict_def list_all_iff length_normalize)
  have a: "list_all (\<lambda>v. length v = d) all_points"
    unfolding list_all_iff
  proof
    fix p assume "p \<in> set all_points"
    then obtain j where j: "j \<in> fst ` set dict" "p = the (map_of dict j)"
      by (auto simp: all_points_def)
    then obtain p' where "map_of dict j = Some p'"
      by (metis map_of_eq_None_iff not_Some_eq)
    then have "(j, p) \<in> set dict" using j(2) by (auto dest: map_of_SomeD)
    then show "length p = d" using dl by auto
  qed
  have s: "set (map fst dict) = fst ` set (kd_id_to_point t)"
    using assms(3) by (auto simp: dict_def dom_update)
  from kd_build_ok[OF l assms(1) a, of t] show ?thesis
    using assms(3) s by (auto simp: kd_update_def Let_def dict_def all_points_def)
qed

subsection \<open>The three maintenance calls of the index service\<close>

lemma vi_add_ok:
  assumes "index_ok d idx" "i \<notin> index_ids idx" "length v = d"
  shows "\<exists>idx'. vi_add G idx v i = Inr idx' \<and> index_ids idx' = insert i (index_ids idx)
           \<and> index_ok d idx'"
proof (cases idx)
  case (BruteForceIndex b)
  then show ?thesis using bf_add_ok[of b i v] assms by auto
next
  case (KDTreeIndex t)
  then show ?thesis using kd_add_ok[of d t v i] assms by auto
next
  case (RandomHyperplaneLSHIndex h)
  then show ?thesis using lsh_add_ok[of i h G v] assms by auto
qed

lemma vi_remove_ok:
  assumes "index_ok d idx" "i \<in> index_ids idx"
  shows "\<exists>idx'. vi_remove idx i = Inr idx' \<and> index_ids idx' = index_ids idx - {i}
           \<and> index_ok d idx'"
proof (cases idx)
  case (BruteForceIndex b)
  then show ?thesis using bf_remove_ok[of b i] assms by auto
next
  case (KDTreeIndex t)
  then show ?thesis using kd_remove_ok[of d t i] assms by auto
next
  case (RandomHyperplaneLSHIndex h)
  then show ?thesis using lsh_remove_ok[of i h] assms by auto
qed

lemma vi_update_ok:
  assumes "index_ok d idx" "i \<in> index_ids idx" "length v = d"
  shows "\<exists>idx'. vi_update G idx i v = Inr idx' \<and> index_ids idx' = index_ids idx
           \<and> index_ok d idx'"
proof (cases idx)
  case (BruteForceIndex b)
  then show ?thesis using bf_update_ok[of b i v] assms by auto
next
  case (KDTreeIndex t)
  then show ?thesis using kd_update_ok[of d t i v] assms by auto
next
  case (RandomHyperplaneLSHIndex h)
  then show ?thesis using lsh_update_ok[of i h G v] assms by auto
qed
lemma sync_fields:
  "sys_indexes (sync_index_version s l) = sys_indexes s"
  "sys_chunks (sync_index_version s l) = sys_chunks s"
  "sys_libraries (sync_index_version s l) = sys_libraries s"
  by (simp_all add: sync_index_version_def split_beta Let_def)

lemma add_chunk_ok:
  assumes "sys_indexes s l = Some idx" "index_ok d idx" "chunk_id c \<notin> index_ids idx"
    and "length (chunk_embedding c) = d"
  shows "\<exists>idx'. add_chunk G s l c
             = (Inr (), sync_index_version (s\<lparr>sys_indexes := (sys_indexes s)(l \<mapsto> idx')\<rparr>) l)
           \<and> index_ids idx' = insert (chunk_id c) (index_ids idx) \<and> index_ok d idx'"
  using vi_add_ok[OF assms(2,3,4), of G] assms(1) by (auto simp: add_chunk_def)

lemma remove_chunk_ok:
  assumes "sys_indexes s l = Some idx" "index_ok d idx" "cid \<in> index_ids idx"
  shows "\<exists>idx'. remove_chunk s l cid
             = (Inr (), sync_index_version (s\<lparr>sys_indexes := (sys_indexes s)(l \<mapsto> idx')\<rparr>) l)
           \<and> index_ids idx' = index_ids idx - {cid} \<and> index_ok d idx'"
  using vi_remove_ok[OF assms(2,3)] assms(1) by (auto simp: remove_chunk_def)

lemma update_chunk_ok:
  assumes "sys_indexes s l = Some idx" "index_ok d idx" "chunk_id c \<in> index_ids idx"
    and "length (chunk_embedding c) = d"
  shows "\<exists>idx'. update_chunk G s l c
             = (Inr (), sync_index_version (s\<lparr>sys_indexes := (sys_indexes s)(l \<mapsto> idx')\<rparr>) l)
           \<and> index_ids idx' = index_ids idx \<and> index_ok d idx'"
  using vi_update_ok[OF assms(2,3,4), of G] assms(1) by (auto simp: update_chunk_def)

subsection \<open>The requests of the chunk service\<close>

lemma in_step_indexes:
  assumes "in_step s" "sys_indexes s l = Some idx"
  obtains d where "index_ids idx = library_chunks s l" "index_ok d idx"
    "\<forall>lib. sys_libraries s l = Some lib \<longrightarrow> lib_embedding_dimension lib = int d"
  using assms unfolding in_step_def by blast

lemma create_in_step:
  assumes st: "in_step s" and cr: "chunk_create G s l d t e i n = (r, s')"
  shows "in_step s' \<and> (isl r \<longrightarrow> s' = s) \<and> (\<not> isl r) = passes_checks s (Create l d t e i n)"
proof (cases "passes_checks s (Create l d t e i n)")
  case False
  then have "s' = s \<and> isl r"
    using cr
    by (auto simp: chunk_create_def chunks_create_def new_chunk_def
        split: sum.splits if_splits)
  then show ?thesis using st False by simp
next
  case True
  obtain lib where lib: "sys_libraries s l = Some lib" "lib_embedding_dimension lib = int (length e)"
    using True by (auto simp: validate_embedding_def libraries_get_def split: option.splits if_splits)
  obtain c where c: "new_chunk i n l d t e = Inr c" "chunk_id c = i" "chunk_library_id c = l"
    "chunk_embedding c = e"
    using True by (auto simp: new_chunk_def split: if_splits)
  define rp where "rp = (sys_chunks s)\<lparr>ch_items := (ch_items (sys_chunks s))(i \<mapsto> c),
      ch_by_library := (ch_by_library (sys_chunks s))
        (l := set_add i (ch_by_library (sys_chunks s) l)),
      ch_by_document := (ch_by_document (sys_chunks s))
        (chunk_document_id c := set_add i (ch_by_document (sys_chunks s) (chunk_document_id c)))\<rparr>"
  have fresh: "i \<notin> dom (ch_items (sys_chunks s))" using True by simp
  have crp: "chunks_create (sys_chunks s) c = Inr rp"
    using fresh c by (simp add: chunks_create_def rp_def)
  define s2 where "s2 = s\<lparr>sys_chunks := rp, sys_versions := snd (bump_data (sys_versions s) l)\<rparr>"
  have res: "(case add_chunk G s2 l c of (Inl e, s3) \<Rightarrow> (Inl e, s3) | (Inr x, s3) \<Rightarrow> (Inr c, s3)) = (r, s')"
    using cr True c(1) crp
    by (auto simp: chunk_create_def s2_def split_beta Let_def split: sum.splits)
  have wf: "\<forall>cid ch. ch_items rp cid = Some ch \<longrightarrow> chunk_id ch = cid"
    using st c(2) by (auto simp: in_step_def rp_def)
  have lc: "\<And>sx l'. sys_chunks sx = rp \<Longrightarrow>
      library_chunks sx l' = (if l' = l then insert i (library_chunks s l) else library_chunks s l')"
    using fresh c(3) by (auto simp: library_chunks_def rp_def)
  show ?thesis
  proof (cases "sys_indexes s l")
    case None
    then have "add_chunk G s2 l c = (Inr (), s2)" by (simp add: add_chunk_def s2_def)
    then have r: "r = Inr c" "s' = s2" using res by auto
    have "in_step s2"
      unfolding in_step_def
    proof (intro conjI allI impI)
      fix cid ch assume "ch_items (sys_chunks s2) cid = Some ch"
      then show "chunk_id ch = cid" using wf by (simp add: s2_def)
    next
      fix l' idx assume a: "sys_indexes s2 l' = Some idx"
      then have n: "l' \<noteq> l" "sys_indexes s l' = Some idx" using None by (auto simp: s2_def)
      from in_step_indexes[OF st n(2)] obtain d0 where d0: "index_ids idx = library_chunks s l'"
        "index_ok d0 idx" "\<forall>lib. sys_libraries s l' = Some lib \<longrightarrow> lib_embedding_dimension lib = int d0"
        by blast
      show "index_ids idx = library_chunks s2 l'" using d0(1) n(1) lc[of s2 l'] by (simp add: s2_def)
      show "\<exists>d. index_ok d idx \<and>
          (\<forall>lib. sys_libraries s2 l' = Some lib \<longrightarrow> lib_embedding_dimension lib = int d)"
        using d0(2,3) by (auto simp: s2_def)
    qed
    then show ?thesis using r True by simp
  next
    case (Some idx)
    from in_step_indexes[OF st Some] obtain d0 where d0: "index_ids idx = library_chunks s l"
      "index_ok d0 idx" "\<forall>lib. sys_libraries s l = Some lib \<longrightarrow> lib_embedding_dimension lib = int d0"
      by blast
    have len: "length (chunk_embedding c) = d0" using d0(3) lib c(4) by simp
    have ni: "chunk_id c \<notin> index_ids idx"
      using fresh c(2) d0(1) by (auto simp: library_chunks_def)
    have i2: "sys_indexes s2 l = Some idx" using Some by (simp add: s2_def)
    from add_chunk_ok[OF i2 d0(2) ni len, of G] obtain idx' where idx':
      "add_chunk G s2 l c = (Inr (), sync_index_version (s2\<lparr>sys_indexes := (sys_indexes s2)(l \<mapsto> idx')\<rparr>) l)"
      "index_ids idx' = insert (chunk_id c) (index_ids idx)" "index_ok d0 idx'" by blast
    have r: "r = Inr c" "s' = sync_index_version (s2\<lparr>sys_indexes := (sys_indexes s2)(l \<mapsto> idx')\<rparr>) l"
      using res idx'(1) by auto
    have f: "sys_chunks s' = rp" "sys_indexes s' = (sys_indexes s)(l \<mapsto> idx')"
      "sys_libraries s' = sys_libraries s"
      by (simp_all add: r(2) sync_fields s2_def)
    have "in_step s'"
      unfolding in_step_def
    proof (intro conjI allI impI)
      fix cid ch assume "ch_items (sys_chunks s') cid = Some ch"
      then show "chunk_id ch = cid" using wf by (simp add: f)
    next
      fix l' ix assume a: "sys_indexes s' l' = Some ix"
      show "index_ids ix = library_chunks s' l'"
      proof (cases "l' = l")
        case True
        then have "ix = idx'" using a by (simp add: f)
        then show ?thesis using True idx'(2) d0(1) c(2) lc[OF f(1), of l'] by simp
      next
        case False
        then have "sys_indexes s l' = Some ix" using a by (simp add: f)
        from in_step_indexes[OF st this] show ?thesis using False lc[OF f(1), of l'] by metis
      qed
      show "\<exists>d. index_ok d ix \<and>
          (\<forall>lib. sys_libraries s' l' = Some lib \<longrightarrow> lib_embedding_dimension lib = int d)"
      proof (cases "l' = l")
        case True
        then have "ix = idx'" using a by (simp add: f)
        then show ?thesis using True idx'(3) d0(3) by (auto simp: f)
      next
        case False
        then have "sys_indexes s l' = Some ix" using a by (simp add: f)
        from in_step_indexes[OF st this] show ?thesis by (metis f(3))
      qed
    qed
    then show ?thesis using r True by simp
  qed
qed
lemma delete_in_step:
  assumes st: "in_step s" and de: "chunk_delete s cid = (r, s')"
  shows "in_step s' \<and> (isl r \<longrightarrow> s' = s) \<and> (\<not> isl r) = passes_checks s (Delete cid)"
proof (cases "ch_items (sys_chunks s) cid")
  case None
  then have "s' = s \<and> isl r" using de by (auto simp: chunk_delete_def chunks_get_def)
  then show ?thesis using st None by (auto simp: dom_def)
next
  case (Some ch)
  define l where "l = chunk_library_id ch"
  define rp where "rp = (sys_chunks s)\<lparr>ch_items := (ch_items (sys_chunks s))(cid := None),
      ch_by_library := (ch_by_library (sys_chunks s))
        (l := set_discard cid (ch_by_library (sys_chunks s) l)),
      ch_by_document := (ch_by_document (sys_chunks s))
        (chunk_document_id ch := set_discard cid (ch_by_document (sys_chunks s) (chunk_document_id ch)))\<rparr>"
  define s2 where "s2 = s\<lparr>sys_chunks := rp, sys_versions := snd (bump_data (sys_versions s) l)\<rparr>"
  have res: "remove_chunk s2 l cid = (r, s')"
    using de Some
    by (auto simp: chunk_delete_def chunks_get_def chunks_delete_def s2_def rp_def l_def
        split_beta Let_def)
  have pc: "passes_checks s (Delete cid)" using Some by (auto simp: dom_def)
  have wf: "\<forall>c' ch'. ch_items rp c' = Some ch' \<longrightarrow> chunk_id ch' = c'"
    using st by (auto simp: in_step_def rp_def)
  have lc: "\<And>sx l'. sys_chunks sx = rp \<Longrightarrow>
      library_chunks sx l' = (if l' = l then library_chunks s l - {cid} else library_chunks s l')"
    using Some by (auto simp: library_chunks_def rp_def l_def)
  have mem: "cid \<in> library_chunks s l" using Some by (simp add: library_chunks_def l_def)
  show ?thesis
  proof (cases "sys_indexes s l")
    case None
    then have "remove_chunk s2 l cid = (Inr (), s2)" by (simp add: remove_chunk_def s2_def)
    then have r: "r = Inr ()" "s' = s2" using res by auto
    have "in_step s2"
      unfolding in_step_def
    proof (intro conjI allI impI)
      fix c' ch' assume "ch_items (sys_chunks s2) c' = Some ch'"
      then show "chunk_id ch' = c'" using wf by (simp add: s2_def)
    next
      fix l' idx assume a: "sys_indexes s2 l' = Some idx"
      then have n: "l' \<noteq> l" "sys_indexes s l' = Some idx" using None by (auto simp: s2_def)
      from in_step_indexes[OF st n(2)] obtain d0 where d0: "index_ids idx = library_chunks s l'"
        "index_ok d0 idx" "\<forall>lib. sys_libraries s l' = Some lib \<longrightarrow> lib_embedding_dimension lib = int d0"
        by blast
      show "index_ids idx = library_chunks s2 l'" using d0(1) n(1) lc[of s2 l'] by (simp add: s2_def)
      show "\<exists>d. index_ok d idx \<and>
          (\<forall>lib. sys_libraries s2 l' = Some lib \<longrightarrow> lib_embedding_dimension lib = int d)"
        using d0(2,3) by (auto simp: s2_def)
    qed
    then show ?thesis using r pc by simp
  next
    case (Some idx)
    from in_step_indexes[OF st Some] obtain d0 where d0: "index_ids idx = library_chunks s l"
      "index_ok d0 idx" "\<forall>lib. sys_libraries s l = Some lib \<longrightarrow> lib_embedding_dimension lib = int d0"
      by blast
    have i2: "sys_indexes s2 l = Some idx" using Some by (simp add: s2_def)
    have mi: "cid \<in> index_ids idx" using mem d0(1) by simp
    from remove_chunk_ok[OF i2 d0(2) mi] obtain idx' where idx':
      "remove_chunk s2 l cid = (Inr (), sync_index_version (s2\<lparr>sys_indexes := (sys_indexes s2)(l \<mapsto> idx')\<rparr>) l)"
      "index_ids idx' = index_ids idx - {cid}" "index_ok d0 idx'" by blast
    have r: "r = Inr ()" "s' = sync_index_version (s2\<lparr>sys_indexes := (sys_indexes s2)(l \<mapsto> idx')\<rparr>) l"
      using res idx'(1) by auto
    have f: "sys_chunks s' = rp" "sys_indexes s' = (sys_indexes s)(l \<mapsto> idx')"
      "sys_libraries s' = sys_libraries s"
      by (simp_all add: r(2) sync_fields s2_def)
    have "in_step s'"
      unfolding in_step_def
    proof (intro conjI allI impI)
      fix c' ch' assume "ch_items (sys_chunks s') c' = Some ch'"
      then show "chunk_id ch' = c'" using wf by (simp add: f)
    next
      fix l' ix assume a: "sys_indexes s' l' = Some ix"
      show "index_ids ix = library_chunks s' l'"
      proof (cases "l' = l")
        case True
        then have "ix = idx'" using a by (simp add: f)
        then show ?thesis using True idx'(2) d0(1) lc[OF f(1), of l'] by simp
      next
        case False
        then have "sys_indexes s l' = Some ix" using a by (simp add: f)
        from in_step_indexes[OF st this] show ?thesis using False lc[OF f(1), of l'] by metis
      qed
      show "\<exists>d. index_ok d ix \<and>
          (\<forall>lib. sys_libraries s' l' = Some lib \<longrightarrow> lib_embedding_dimension lib = int d)"
      proof (cases "l' = l")
        case True
        then have "ix = idx'" using a by (simp add: f)
        then show ?thesis using True idx'(3) d0(3) by (auto simp: f)
      next
        case False
        then have "sys_indexes s l' = Some ix" using a by (simp add: f)
        from in_step_indexes[OF st this] show ?thesis by (metis f(3))
      qed
    qed
    then show ?thesis using r pc by simp
  qed
qed

lemma update_in_step:
  assumes st: "in_step s" and up: "chunk_update G s cid t e = (r, s')"
  shows "in_step s' \<and> (isl r \<longrightarrow> s' = s) \<and> (\<not> isl r) = passes_checks s (Update cid t e)"
proof (cases "passes_checks s (Update cid t e)")
  case False
  then have "s' = s \<and> isl r"
    using up
    by (auto simp: chunk_update_def chunks_get_def chunks_update_def
        split: sum.splits option.splits)
  then show ?thesis using st False by simp
next
  case True
  then obtain ch where ch: "ch_items (sys_chunks s) cid = Some ch" by (auto split: option.splits)
  define l where "l = chunk_library_id ch"
  have val: "case e of None \<Rightarrow> True | Some em \<Rightarrow> \<not> isl (validate_embedding s l em)"
    using True ch unfolding l_def by (cases e) simp_all
  define res where "res = (case e of None \<Rightarrow> (case t of None \<Rightarrow> ch | Some tx \<Rightarrow> ch\<lparr>chunk_text := tx\<rparr>)
      | Some em \<Rightarrow> (case t of None \<Rightarrow> ch | Some tx \<Rightarrow> ch\<lparr>chunk_text := tx\<rparr>)\<lparr>chunk_embedding := em\<rparr>)"
  define rp where "rp = (sys_chunks s)\<lparr>ch_items := (ch_items (sys_chunks s))(cid \<mapsto> res)\<rparr>"
  have cu: "chunks_update (sys_chunks s) cid t e = Inr (res, rp)"
    using ch by (simp add: chunks_update_def res_def rp_def Let_def)
  have idc: "chunk_id ch = cid" using st ch by (auto simp: in_step_def)
  have rf: "chunk_id res = cid" "chunk_library_id res = l"
    using idc by (auto simp: res_def l_def split: option.splits)
  define s2 where "s2 = s\<lparr>sys_chunks := rp, sys_versions := snd (bump_data (sys_versions s) l)\<rparr>"
  have wf: "\<forall>c' ch'. ch_items rp c' = Some ch' \<longrightarrow> chunk_id ch' = c'"
    using st rf(1) by (auto simp: in_step_def rp_def)
  have lc: "\<And>sx l'. sys_chunks sx = rp \<Longrightarrow> library_chunks sx l' = library_chunks s l'"
    using ch rf(2) by (auto simp: library_chunks_def rp_def l_def)
  have keep: "\<And>sx. sys_chunks sx = rp \<Longrightarrow> sys_indexes sx = sys_indexes s \<Longrightarrow>
      sys_libraries sx = sys_libraries s \<Longrightarrow> in_step sx"
    using st wf lc unfolding in_step_def by auto
  show ?thesis
  proof (cases e)
    case None
    then have "r = Inr res \<and> s' = s2"
      using up ch cu
      by (auto simp: chunk_update_def chunks_get_def s2_def l_def split_beta Let_def)
    moreover have "in_step s2" by (rule keep) (simp_all add: s2_def)
    ultimately show ?thesis using True by simp
  next
    case (Some em)
    have re: "chunk_embedding res = em" using Some by (simp add: res_def)
    have v: "\<not> isl (validate_embedding s l em)" using val Some by simp
    then obtain lib where lib: "sys_libraries s l = Some lib" "lib_embedding_dimension lib = int (length em)"
      by (auto simp: validate_embedding_def libraries_get_def split: option.splits if_splits)
    have res': "(case update_chunk G s2 l res of (Inl e, s3) \<Rightarrow> (Inl e, s3) | (Inr x, s3) \<Rightarrow> (Inr res, s3)) = (r, s')"
      using up ch cu Some v
      by (auto simp: chunk_update_def chunks_get_def s2_def l_def split_beta Let_def split: sum.splits)
    show ?thesis
    proof (cases "sys_indexes s l")
      case None
      then have "update_chunk G s2 l res = (Inr (), s2)" by (simp add: update_chunk_def s2_def)
      then have "r = Inr res \<and> s' = s2" using res' by auto
      moreover have "in_step s2" by (rule keep) (simp_all add: s2_def)
      ultimately show ?thesis using True by simp
    next
      case (Some idx)
      from in_step_indexes[OF st Some] obtain d0 where d0: "index_ids idx = library_chunks s l"
        "index_ok d0 idx" "\<forall>lib. sys_libraries s l = Some lib \<longrightarrow> lib_embedding_dimension lib = int d0"
        by blast
      have len: "length (chunk_embedding res) = d0" using d0(3) lib re by simp
      have mi: "chunk_id res \<in> index_ids idx"
        using ch d0(1) rf(1) by (auto simp: library_chunks_def l_def)
      have i2: "sys_indexes s2 l = Some idx" using Some by (simp add: s2_def)
      from update_chunk_ok[OF i2 d0(2) mi len, of G] obtain idx' where idx':
        "update_chunk G s2 l res = (Inr (), sync_index_version (s2\<lparr>sys_indexes := (sys_indexes s2)(l \<mapsto> idx')\<rparr>) l)"
        "index_ids idx' = index_ids idx" "index_ok d0 idx'" by blast
      have r: "r = Inr res" "s' = sync_index_version (s2\<lparr>sys_indexes := (sys_indexes s2)(l \<mapsto> idx')\<rparr>) l"
        using res' idx'(1) by auto
      have f: "sys_chunks s' = rp" "sys_indexes s' = (sys_indexes s)(l \<mapsto> idx')"
        "sys_libraries s' = sys_libraries s"
        by (simp_all add: r(2) sync_fields s2_def)
      have "in_step s'"
        unfolding in_step_def
      proof (intro conjI allI impI)
        fix c' ch' assume "ch_items (sys_chunks s') c' = Some ch'"
        then show "chunk_id ch' = c'" using wf by (simp add: f)
      next
        fix l' ix assume a: "sys_indexes s' l' = Some ix"
        show "index_ids ix = library_chunks s' l'"
        proof (cases "l' = l")
          case True
          then have "ix = idx'" using a by (simp add: f)
          then show ?thesis using True idx'(2) d0(1) lc[OF f(1), of l'] by simp
        next
          case False
          then have "sys_indexes s l' = Some ix" using a by (simp add: f)
          from in_step_indexes[OF st this] show ?thesis using lc[OF f(1), of l'] by metis
        qed
        show "\<exists>d. index_ok d ix \<and>
            (\<forall>lib. sys_libraries s' l' = Some lib \<longrightarrow> lib_embedding_dimension lib = int d)"
        proof (cases "l' = l")
          case True
          then have "ix = idx'" using a by (simp add: f)
          then show ?thesis using True idx'(3) d0(3) by (auto simp: f)
        next
          case False
          then have "sys_indexes s l' = Some ix" using a by (simp add: f)
          from in_step_indexes[OF st this] show ?thesis by (metis f(3))
        qed
      qed
      then show ?thesis using r True by simp
    qed
  qed
qed
subsection \<open>Sequences of requests\<close>

lemma apply_op_in_step:
  assumes "in_step s" "apply_op G s op = (r, s')"
  shows "in_step s' \<and> (r \<noteq> None \<longrightarrow> s' = s) \<and> (r = None) = passes_checks s op"
proof (cases op)
  case (Create l d t e i n)
  obtain r0 where r0: "chunk_create G s l d t e i n = (r0, s')" and rr: "(r = None) = (\<not> isl r0)"
    using assms(2) Create by (auto split: prod.splits sum.splits)
  from create_in_step[OF assms(1) r0] show ?thesis using rr Create by auto
next
  case (Update cid t e)
  obtain r0 where r0: "chunk_update G s cid t e = (r0, s')" and rr: "(r = None) = (\<not> isl r0)"
    using assms(2) Update by (auto split: prod.splits sum.splits)
  from update_in_step[OF assms(1) r0] show ?thesis using rr Update by auto
next
  case (Delete cid)
  obtain r0 where r0: "chunk_delete s cid = (r0, s')" and rr: "(r = None) = (\<not> isl r0)"
    using assms(2) Delete by (auto split: prod.splits sum.splits)
  from delete_in_step[OF assms(1) r0] show ?thesis using rr Delete by auto
qed

lemma run_ops_0: "run_ops G s ops ! 0 = s"
  by (cases ops) simp_all

lemma run_ops_Suc:
  "n < length ops \<Longrightarrow>
     run_ops G s ops ! Suc n = snd (apply_op G (run_ops G s ops ! n) (ops ! n))"
proof (induction ops arbitrary: s n)
  case Nil
  then show ?case by simp
next
  case (Cons op ops)
  show ?case
  proof (cases n)
    case 0
    then show ?thesis by (simp add: run_ops_0)
  next
    case (Suc m)
    then show ?thesis using Cons.IH[of m "snd (apply_op G s op)"] Cons.prems by simp
  qed
qed

lemma run_ops_consistent:
  assumes "consistent s"
  shows "n \<le> length ops \<Longrightarrow> consistent (run_ops G s ops ! n)"
proof (induction n)
  case 0
  then show ?case using assms by (simp add: run_ops_0)
next
  case (Suc n)
  then have c: "consistent (run_ops G s ops ! n)" and n: "n < length ops" by simp_all
  obtain r s' where ap: "apply_op G (run_ops G s ops ! n) (ops ! n) = (r, s')"
    by (cases "apply_op G (run_ops G s ops ! n) (ops ! n)")
  have "versions_ok s'" using apply_op_step[OF _ ap] c by (simp add: consistent_def)
  moreover have "in_step s'" using apply_op_in_step[OF _ ap] c by (simp add: consistent_def)
  ultimately show ?case using run_ops_Suc[OF n, of G s] ap by (simp add: consistent_def)
qed

lemma consistent_example: "consistent example_system"
proof -
  have "in_step example_system"
    unfolding in_step_def
  proof (intro conjI allI impI)
    fix cid ch assume "ch_items (sys_chunks example_system) cid = Some ch"
    then show "chunk_id ch = cid" by (simp add: example_system_def empty_system_def)
  next
    fix l idx assume a: "sys_indexes example_system l = Some idx"
    then have i: "l = ''L''" "idx = BruteForceIndex (bf_init True)"
      by (auto simp: example_system_def empty_system_def split: if_splits)
    show "index_ids idx = library_chunks example_system l"
      by (simp add: i library_chunks_def example_system_def empty_system_def bf_init_def)
    have "index_ok 4 idx \<and>
        (\<forall>lib. sys_libraries example_system l = Some lib \<longrightarrow> lib_embedding_dimension lib = int 4)"
      by (auto simp: i bf_inv_init example_system_def empty_system_def)
    then show "\<exists>d. index_ok d idx \<and>
        (\<forall>lib. sys_libraries example_system l = Some lib \<longrightarrow> lib_embedding_dimension lib = int d)"
      by blast
  qed
  then show ?thesis using versions_ok_example by (simp add: consistent_def)
qed

subsection \<open>A build over the library's chunks leaves the index in step\<close>

lemma lsh_foldl_insert_keys:
  "fst ` set (lsh_id_to_vec (foldl lsh_insert h xs)) = fst ` set (lsh_id_to_vec h) \<union> snd ` set xs"
proof (induction xs arbitrary: h)
  case Nil
  then show ?case by simp
next
  case (Cons x xs)
  show ?case using Cons[of "lsh_insert h x"] by (auto simp: lsh_insert_fields(3))
qed

lemma lsh_build_keys:
  assumes "length vectors = length ids"
  shows "fst ` set (lsh_id_to_vec (lsh_build G h vectors ids)) = set ids"
proof (cases "vectors = []")
  case True
  then show ?thesis using assms by (simp add: lsh_build_def)
next
  case False
  have "snd ` set (zip vectors ids) = set (map snd (zip vectors ids))" by simp
  also have "\<dots> = set ids" using assms by simp
  finally show ?thesis
    using False by (simp add: lsh_build_def Let_def lsh_foldl_insert_keys init_planes_def)
qed

lemma vi_build_ok:
  assumes "length vectors = length ids" "distinct ids" "0 < d"
    and "list_all (\<lambda>v. length v = d) vectors"
  shows "\<exists>idx. vi_build G (create_index itype) vectors ids = Inr idx
           \<and> index_ids idx = set ids \<and> index_ok d idx"
proof (cases itype)
  case BRUTE_FORCE
  then show ?thesis using bf_inv_build[OF assms(1,2), of "bf_init True"]
    by (simp add: bf_build_def)
next
  case KD_TREE
  then show ?thesis using kd_build_ok[OF assms(1)[symmetric] assms(3,4), of kd_init] assms(3)
    by auto
next
  case LSH
  then show ?thesis using lsh_build_keys[OF assms(1)] by simp
qed

lemma chunks_of_library:
  assumes wf: "chunk_repo_wf r" and ls: "chunks_list_by_library r l = Inr chunks"
  shows "map chunk_id chunks = ch_by_library r l"
proof -
  have p: "\<forall>i \<in> set (ch_by_library r l). ch_items r i \<noteq> None"
    using wf unfolding chunk_repo_wf_def by auto
  have i: "\<forall>i \<in> set (ch_by_library r l). chunk_id (the (ch_items r i)) = i"
    using wf unfolding chunk_repo_wf_def by auto
  have "chunks = map (\<lambda>i. the (ch_items r i)) (ch_by_library r l)"
    using ls lookup_all_present[OF p] by (simp add: chunks_list_by_library_def)
  then show ?thesis using i by (simp add: map_idI)
qed

text \<open>
  When \<^verbatim>\<open>build_index\<close> is given the chunks the library holds, all of the library's
  dimension, it publishes an index that is in step with the repository, whatever the
  index type.
\<close>

lemma build_index_consistent:
  assumes c: "consistent s" and wf: "chunk_repo_wf (sys_chunks s)"
    and ls: "chunks_list_by_library (sys_chunks s) l = Inr chunks"
    and lib: "\<forall>lib. sys_libraries s l = Some lib \<longrightarrow> lib_embedding_dimension lib = int d"
    and d: "0 < d" "list_all (\<lambda>c. length (chunk_embedding c) = d) chunks"
  shows "\<exists>s'. build_index G s l itype chunks = (Inr (), s') \<and> consistent s'"
proof -
  have ids: "map chunk_id chunks = ch_by_library (sys_chunks s) l"
    using chunks_of_library[OF wf ls] .
  have di: "distinct (map chunk_id chunks)" and si: "set (map chunk_id chunks) = library_chunks s l"
    using wf unfolding ids chunk_repo_wf_def library_chunks_def by auto
  have le: "length (map chunk_embedding chunks) = length (map chunk_id chunks)" by simp
  have la: "list_all (\<lambda>v. length v = d) (map chunk_embedding chunks)"
    using d(2) by (simp add: list_all_iff)
  from vi_build_ok[OF le di d(1) la, of G itype] obtain idx where idx:
    "vi_build G (create_index itype) (map chunk_embedding chunks) (map chunk_id chunks) = Inr idx"
    "index_ids idx = library_chunks s l" "index_ok d idx" using si by auto
  define s' where "s' = snd (build_index G s l itype chunks)"
  have b: "build_index G s l itype chunks = (Inr (), s')"
    using idx(1) by (simp add: s'_def build_index_def Let_def)
  have f: "sys_chunks s' = sys_chunks s" "sys_libraries s' = sys_libraries s"
    "sys_indexes s' = (sys_indexes s)(l \<mapsto> idx)"
    using idx(1) by (simp_all add: s'_def build_index_def Let_def sync_fields)
  have lc: "\<And>l'. library_chunks s' l' = library_chunks s l'" by (simp add: library_chunks_def f)
  have st: "in_step s" using c by (simp add: consistent_def)
  have "in_step s'"
    unfolding in_step_def
  proof (intro conjI allI impI)
    fix cid ch assume "ch_items (sys_chunks s') cid = Some ch"
    then show "chunk_id ch = cid" using st by (simp add: in_step_def f)
  next
    fix l' ix assume a: "sys_indexes s' l' = Some ix"
    show "index_ids ix = library_chunks s' l'"
    proof (cases "l' = l")
      case True
      then show ?thesis using a idx(2) lc by (simp add: f)
    next
      case False
      then have "sys_indexes s l' = Some ix" using a by (simp add: f)
      from in_step_indexes[OF st this] show ?thesis using lc by metis
    qed
    show "\<exists>d. index_ok d ix \<and>
        (\<forall>lib. sys_libraries s' l' = Some lib \<longrightarrow> lib_embedding_dimension lib = int d)"
    proof (cases "l' = l")
      case True
      then show ?thesis using a idx(3) lib by (auto simp: f)
    next
      case False
      then have "sys_indexes s l' = Some ix" using a by (simp add: f)
      from in_step_indexes[OF st this] show ?thesis by (metis f(2))
    qed
  qed
  moreover have "versions_ok s'"
    unfolding s'_def using versions_ok_build_index c by (simp add: consistent_def)
  ultimately show ?thesis using b by (auto simp: consistent_def)
qed

subsection \<open>The claim\<close>

text \<open>
  Claim C2, as stated, fails when the live index has fallen behind the repository.  In
  the state \<open>lagging_example\<close> the library \<open>L\<close> has a live index that \<^verbatim>\<open>build_index\<close> has
  just published as current (index version 1, data version 1), built from the chunks the
  library had when the build read them: none.  The repository holds the chunk \<open>c1\<close>.
  Deleting \<open>c1\<close> removes it from the repository and raises the data version to 2; the
  maintenance call \<^verbatim>\<open>remove_chunk\<close> then fails with \<^verbatim>\<open>KeyError\<close> in the index's
  \<^verbatim>\<open>remove\<close>, before it reaches \<^verbatim>\<open>set_index_version\<close>.  After the call the index
  version is 1, the data version 2, and the index is stale.
\<close>

theorem lagging_index_counterexample:
  "chunks_list_by_library (sys_chunks example_system) ''L'' = Inr []
   \<and> version_of (lagging_example (\<lambda>_ _. 1)) ''L'' = \<lparr>data_version = 1, index_version = 1\<rparr>
   \<and> maintained (lagging_example (\<lambda>_ _. 1)) (Delete ''c1'') = Some ''L''
   \<and> fst (apply_op (\<lambda>_ _. 1) (lagging_example (\<lambda>_ _. 1)) (Delete ''c1'')) = Some KeyError
   \<and> version_of (snd (apply_op (\<lambda>_ _. 1) (lagging_example (\<lambda>_ _. 1)) (Delete ''c1''))) ''L''
       = \<lparr>data_version = 2, index_version = 1\<rparr>
   \<and> fst (is_index_stale
            (sys_versions (snd (apply_op (\<lambda>_ _. 1) (lagging_example (\<lambda>_ _. 1)) (Delete ''c1''))))
            ''L'')"
proof -
  define s1 where "s1 = snd (chunk_create (\<lambda>_ _. 1) example_system ''L'' ''D'' ''t'' [1, 0, 0, 0] ''c1'' 0)"
  have s1: "sys_chunks s1 = \<lparr>ch_items = [''c1'' \<mapsto> mk_chunk ''c1'' [1, 0, 0, 0]],
                      ch_by_library = (\<lambda>_. [])(''L'' := [''c1'']),
                      ch_by_document = (\<lambda>_. [])(''D'' := [''c1''])\<rparr>"
    "sys_versions s1 = [''L'' \<mapsto> \<lparr>data_version = 1, index_version = 1\<rparr>]"
    by (simp_all add: s1_def chunk_create_def libraries_get_def documents_get_def
        validate_embedding_def new_chunk_def strip_t chunks_create_def add_chunk_def bf_add_def
        bf_init_def bump_data_def vm_setdefault_def example_system_def empty_system_def
        sync_index_version_def vm_get_def set_index_version_def set_add_def mk_chunk_def
        split_beta Let_def)
  define s2 where "s2 = lagging_example (\<lambda>_ _. 1)"
  have s2: "sys_chunks s2 = sys_chunks s1"
    "sys_versions s2 = [''L'' \<mapsto> \<lparr>data_version = 1, index_version = 1\<rparr>]"
    "sys_indexes s2 ''L'' = Some (BruteForceIndex (bf_build (bf_init True) [] []))"
    by (simp_all add: s2_def lagging_example_def s1_def[symmetric] build_index_def s1
        sync_index_version_def vm_get_def set_index_version_def vm_setdefault_def
        split_beta Let_def)
  have a: "chunks_list_by_library (sys_chunks example_system) ''L'' = Inr []"
    by (simp add: chunks_list_by_library_def example_system_def empty_system_def)
  have b: "version_of s2 ''L'' = \<lparr>data_version = 1, index_version = 1\<rparr>"
    by (simp add: version_of_def vm_get_def vm_setdefault_def s2)
  have c: "maintained s2 (Delete ''c1'') = Some ''L''"
    by (simp add: live_library_of_def s2 s1 mk_chunk_def)
  obtain r s3 where d: "chunk_delete s2 ''c1'' = (r, s3)" by (cases "chunk_delete s2 ''c1''")
  have e: "r = Inl KeyError"
    "sys_versions s3 = [''L'' \<mapsto> \<lparr>data_version = 2, index_version = 1\<rparr>]"
    using d
    by (auto simp: chunk_delete_def chunks_get_def chunks_delete_def remove_chunk_def s2 s1
        mk_chunk_def bump_data_def vm_setdefault_def bf_remove_def bf_build_def bf_init_def
        pos_of_ids_def split_beta Let_def)
  have f: "fst (apply_op (\<lambda>_ _. 1) s2 (Delete ''c1'')) = Some KeyError"
    "snd (apply_op (\<lambda>_ _. 1) s2 (Delete ''c1'')) = s3"
    using d e(1) by simp_all
  have g: "version_of s3 ''L'' = \<lparr>data_version = 2, index_version = 1\<rparr>"
    "fst (is_index_stale (sys_versions s3) ''L'')"
    by (simp_all add: version_of_def vm_get_def vm_setdefault_def is_index_stale_def e(2))
  show ?thesis using a b c f g unfolding s2_def by simp
qed

text \<open>
  Claim C2, amended.  Take any sequence of chunk create, update and delete requests,
  started in a state in which the version invariant holds and every live index is in
  step with the repository.  At every step: the index version of no library decreases;
  the request is carried out exactly when it passes the checks that precede its first
  change, and a refused request leaves the state as it was, so the incremental
  maintenance call is reached only by requests that are carried out and never raises;
  and when the request is carried out and patches the live index of library \<open>l\<close>, then
  in the state right after it the index version of \<open>l\<close> equals its data version and
  \<open>is_index_stale\<close> answers false.
\<close>

theorem incremental_maintenance_versions:
  assumes "consistent s0"
  shows "\<forall>n < length ops.
           snd (apply_op G (run_ops G s0 ops ! n) (ops ! n)) = run_ops G s0 ops ! Suc n \<and>
           (\<forall>l. index_version (version_of (run_ops G s0 ops ! n) l)
                  \<le> index_version (version_of (run_ops G s0 ops ! Suc n) l)) \<and>
           (fst (apply_op G (run_ops G s0 ops ! n) (ops ! n)) = None)
              = passes_checks (run_ops G s0 ops ! n) (ops ! n) \<and>
           (fst (apply_op G (run_ops G s0 ops ! n) (ops ! n)) \<noteq> None \<longrightarrow>
              run_ops G s0 ops ! Suc n = run_ops G s0 ops ! n) \<and>
           (\<forall>l. fst (apply_op G (run_ops G s0 ops ! n) (ops ! n)) = None \<and>
                maintained (run_ops G s0 ops ! n) (ops ! n) = Some l \<longrightarrow>
                index_version (version_of (run_ops G s0 ops ! Suc n) l)
                  = data_version (version_of (run_ops G s0 ops ! Suc n) l) \<and>
                \<not> fst (is_index_stale (sys_versions (run_ops G s0 ops ! Suc n)) l))"
proof (intro allI impI)
  fix n assume n: "n < length ops"
  define s where "s = run_ops G s0 ops ! n"
  define s' where "s' = run_ops G s0 ops ! Suc n"
  define r where "r = fst (apply_op G s (ops ! n))"
  have c: "consistent s" unfolding s_def using run_ops_consistent[OF assms, of n ops G] n by simp
  have ap: "apply_op G s (ops ! n) = (r, s')"
    using run_ops_Suc[OF n, of G s0] by (simp add: s_def s'_def r_def)
  have v: "step_ok s (ops ! n) r s'" using apply_op_step[OF _ ap] c by (simp add: consistent_def)
  have i: "(r \<noteq> None \<longrightarrow> s' = s) \<and> (r = None) = passes_checks s (ops ! n)"
    using apply_op_in_step[OF _ ap] c unfolding consistent_def by blast
  have "snd (apply_op G s (ops ! n)) = s'" using ap by simp
  moreover have "\<forall>l. index_version (version_of s l) \<le> index_version (version_of s' l)"
    using v by (simp add: step_ok_def)
  moreover have "\<forall>l. r = None \<and> maintained s (ops ! n) = Some l \<longrightarrow>
      index_version (version_of s' l) = data_version (version_of s' l) \<and>
      \<not> fst (is_index_stale (sys_versions s') l)"
    using v by (simp add: step_ok_def)
  ultimately show "snd (apply_op G (run_ops G s0 ops ! n) (ops ! n)) = run_ops G s0 ops ! Suc n \<and>
           (\<forall>l. index_version (version_of (run_ops G s0 ops ! n) l)
                  \<le> index_version (version_of (run_ops G s0 ops ! Suc n) l)) \<and>
           (fst (apply_op G (run_ops G s0 ops ! n) (ops ! n)) = None)
              = passes_checks (run_ops G s0 ops ! n) (ops ! n) \<and>
           (fst (apply_op G (run_ops G s0 ops ! n) (ops ! n)) \<noteq> None \<longrightarrow>
              run_ops G s0 ops ! Suc n = run_ops G s0 ops ! n) \<and>
           (\<forall>l. fst (apply_op G (run_ops G s0 ops ! n) (ops ! n)) = None \<and>
                maintained (run_ops G s0 ops ! n) (ops ! n) = Some l \<longrightarrow>
                index_version (version_of (run_ops G s0 ops ! Suc n) l)
                  = data_version (version_of (run_ops G s0 ops ! Suc n) l) \<and>
                \<not> fst (is_index_stale (sys_versions (run_ops G s0 ops ! Suc n)) l))"
    using i unfolding s_def[symmetric] s'_def[symmetric] r_def[symmetric] by blast
qed
lemma example_after_create:
  "ch_items (sys_chunks (snd (apply_op (\<lambda>_ _. 1) example_system
       (Create ''L'' ''D'' ''t'' [1, 0, 0, 0] ''c1'' 0)))) ''c1'' = Some (mk_chunk ''c1'' [1, 0, 0, 0])"
  "sys_indexes (snd (apply_op (\<lambda>_ _. 1) example_system
       (Create ''L'' ''D'' ''t'' [1, 0, 0, 0] ''c1'' 0))) ''L'' \<noteq> None"
  by (simp_all add: chunk_create_def libraries_get_def documents_get_def
        validate_embedding_def new_chunk_def strip_t chunks_create_def add_chunk_def bf_add_def
        bf_init_def bump_data_def vm_setdefault_def example_system_def empty_system_def
        sync_index_version_def vm_get_def set_index_version_def set_add_def mk_chunk_def
        split_beta Let_def)

theorem incremental_maintenance_versions_witness:
  "consistent example_system
   \<and> fst (apply_op (\<lambda>_ _. 1) example_system (Create ''L'' ''D'' ''t'' [1, 0, 0, 0] ''c1'' 0)) = None
   \<and> index_version (version_of (snd (apply_op (\<lambda>_ _. 1) example_system
         (Create ''L'' ''D'' ''t'' [1, 0, 0, 0] ''c1'' 0))) ''L'')
     = data_version (version_of (snd (apply_op (\<lambda>_ _. 1) example_system
         (Create ''L'' ''D'' ''t'' [1, 0, 0, 0] ''c1'' 0))) ''L'')
   \<and> fst (apply_op (\<lambda>_ _. 1)
            (snd (apply_op (\<lambda>_ _. 1) example_system (Create ''L'' ''D'' ''t'' [1, 0, 0, 0] ''c1'' 0)))
            (Delete ''c1'')) = None
   \<and> index_version (version_of (snd (apply_op (\<lambda>_ _. 1)
            (snd (apply_op (\<lambda>_ _. 1) example_system (Create ''L'' ''D'' ''t'' [1, 0, 0, 0] ''c1'' 0)))
            (Delete ''c1''))) ''L'')
     = data_version (version_of (snd (apply_op (\<lambda>_ _. 1)
            (snd (apply_op (\<lambda>_ _. 1) example_system (Create ''L'' ''D'' ''t'' [1, 0, 0, 0] ''c1'' 0)))
            (Delete ''c1''))) ''L'')"
proof -
  define cr where "cr = Create ''L'' ''D'' ''t'' [1, 0, 0, 0] ''c1'' 0"
  define s1 where "s1 = snd (apply_op (\<lambda>_ _. 1) example_system cr)"
  define s2 where "s2 = snd (apply_op (\<lambda>_ _. 1) s1 (Delete ''c1''))"
  have st: "run_ops (\<lambda>_ _. 1) example_system [cr, Delete ''c1''] = [example_system, s1, s2]"
    by (simp add: s1_def s2_def)
  note t = incremental_maintenance_versions[OF consistent_example, of "[cr, Delete ''c1'']" "\<lambda>_ _. 1"]
  have p0: "passes_checks example_system cr"
    by (simp add: cr_def libraries_get_def documents_get_def validate_embedding_def new_chunk_def
        strip_t example_system_def empty_system_def)
  have m0: "maintained example_system cr = Some ''L''"
    by (simp add: cr_def example_system_def empty_system_def)
  have c1: "ch_items (sys_chunks s1) ''c1'' = Some (mk_chunk ''c1'' [1, 0, 0, 0])"
    and i1: "sys_indexes s1 ''L'' \<noteq> None"
    using example_after_create by (simp_all add: s1_def cr_def)
  have p1: "passes_checks s1 (Delete ''c1'')" using c1 by (simp add: dom_def)
  have m1: "maintained s1 (Delete ''c1'') = Some ''L''"
    using c1 i1 by (simp add: live_library_of_def mk_chunk_def)
  have a0:
    "fst (apply_op (\<lambda>_ _. 1) example_system cr) = None"
    "index_version (version_of s1 ''L'') = data_version (version_of s1 ''L'')"
    using t[rule_format, of 0] p0 m0 unfolding st by simp_all
  have a1:
    "fst (apply_op (\<lambda>_ _. 1) s1 (Delete ''c1'')) = None"
    "index_version (version_of s2 ''L'') = data_version (version_of s2 ''L'')"
    using t[rule_format, of 1] p1 m1 unfolding st by simp_all
  show ?thesis using consistent_example a0 a1 unfolding s1_def s2_def cr_def by simp
qed

end
